theory Spec2Isabelle
  imports Complex_Main "HOL-Library.Sublist"
begin

section \<open>Python strings\<close>

text \<open>
  A Python \<open>str\<close> is modelled as a \<^typ>\<open>string\<close> whose characters are the code points
  U+0000 to U+00FF. On such strings Unicode canonical composition (NFC) changes nothing,
  the white space of \<open>str.strip\<close> and of the regular expression class \<open>\s\<close> is the set
  given by \<open>isspace\<close> below, and \<open>str.lower\<close> maps character by character. The labels
  of the program that lie outside this range are never inspected by the functions
  modelled here: the status labels, the emoji and one error message are constructors of
  datatypes, and the default source name is the list of its code points.
\<close>

definition isspace :: "char \<Rightarrow> bool" where
  "isspace c \<longleftrightarrow> (let n = (of_char c :: nat) in
     (9 \<le> n \<and> n \<le> 13) \<or> (28 \<le> n \<and> n \<le> 32) \<or> n = 133 \<or> n = 160)"

definition lower_char :: "char \<Rightarrow> char" where
  "lower_char c = (let n = (of_char c :: nat) in
     if (65 \<le> n \<and> n \<le> 90) \<or> (192 \<le> n \<and> n \<le> 222 \<and> n \<noteq> 215)
     then char_of (n + 32) else c)"

definition lower :: "string \<Rightarrow> string" where
  "lower s = map lower_char s"

text \<open>\<open>s.startswith(p)\<close> and the substring test \<open>sub in s\<close>.\<close>

fun startswith :: "string \<Rightarrow> string \<Rightarrow> bool" where
  "startswith s [] = True"
| "startswith [] (p # ps) = False"
| "startswith (c # cs) (p # ps) = (c = p \<and> startswith cs ps)"

fun contains :: "string \<Rightarrow> string \<Rightarrow> bool" where
  "contains sub [] = (sub = [])"
| "contains sub (c # cs) = (startswith (c # cs) sub \<or> contains sub cs)"


section \<open>Candidates and verification results\<close>

text \<open>
  A candidate is the dictionary with the keys \<open>original_url\<close>, \<open>normalized_url\<close> and
  \<open>source_file\<close>. The source name is only stored and copied, so its type is a parameter.
\<close>

record 's url_info =
  original_url :: string
  normalized_url :: string
  source_file :: 's

text \<open>
  The thirteen values that the key \<open>status\<close> takes, in the order in which they occur in
  \<open>_verify_url\<close> and \<open>_handle_error\<close>: unknown (the initial value), invalid,
  informational response, active, redirect, client error, server error, timeout, cannot
  connect, domain error, SSL error, too many requests, network error.
\<close>

datatype status_label =
    Unknown | Invalid
  | Informational | Active | Redirect | ClientError | ServerError
  | Timeout | CannotConnect | DomainError | SslError | TooManyRequests | NetworkError

datatype emoji =
    QuestionMark | CrossMark | InfoSign | CheckMark | Arrows | WarningSign
  | Hourglass | Plug | Globe | Lock | SosSign

text \<open>
  The key \<open>error_message\<close> holds the empty string, the fixed text for an empty URL (which
  is outside Latin-1), or the text built from an exception.
\<close>

datatype message = Text string | EmptyUrlText

record 's result = "'s url_info" +
  status_code :: int
  status :: status_label
  emoji :: emoji
  response_time :: real
  error_message :: message

text \<open>An exception, as far as the program reads it: the name of its class and \<open>str(e)\<close>.\<close>

record exception =
  type_name :: string
  description :: string

text \<open>
  The network is the environment. One request either answers with \<open>response.status\<close>
  (and the program then reads the clock; the number carried here is the rounded elapsed
  time it stores) or raises. A probe says what the HEAD request does and what the GET
  request does if it is issued.
\<close>

datatype attempt = Respond int real | Raise exception

record probe =
  head_attempt :: attempt
  get_attempt :: attempt


section \<open>The verifier\<close>

text \<open>
  \<open>_handle_error\<close>: the description of the exception is lower-cased, then the
  keywords are looked for in the order of the \<open>if\<close> chain.
\<close>

definition handle_error :: "'s result \<Rightarrow> exception \<Rightarrow> 's result" where
  "handle_error result exc =
    (let err = lower (description exc);
         result1 =
          (if contains ''timed out'' err then
             result\<lparr>status := Timeout, emoji := Hourglass\<rparr>
           else if contains ''cannot connect'' err then
             result\<lparr>status := CannotConnect, emoji := Plug\<rparr>
           else if contains ''name not known'' err \<or> contains ''gaierror'' err then
             result\<lparr>status := DomainError, emoji := Globe\<rparr>
           else if contains ''ssl'' err \<or> contains ''certificate'' err then
             result\<lparr>status := SslError, emoji := Lock\<rparr>
           else if contains ''too many'' err then
             result\<lparr>status := TooManyRequests, emoji := SosSign\<rparr>
           else
             result\<lparr>status := NetworkError, emoji := CrossMark\<rparr>)
     in result1\<lparr>error_message := Text (type_name exc @ '': '' @ take 120 (description exc))\<rparr>)"

text \<open>
  The body of the \<open>try\<close> block of \<open>_verify_url\<close>: HEAD first, and GET when HEAD raised
  anything. An exception of the GET request leaves the block.
\<close>

definition request :: "probe \<Rightarrow> attempt" where
  "request p = (case head_attempt p of
      Respond st elapsed \<Rightarrow> Respond st elapsed
    | Raise _ \<Rightarrow> get_attempt p)"

text \<open>
  \<open>_verify_url\<close>. The exceptions modelled are instances of \<open>Exception\<close>, which the
  handler of the \<open>try\<close> block passes to \<open>_handle_error\<close>.
\<close>

definition verify_url :: "probe \<Rightarrow> 's url_info \<Rightarrow> 's result" where
  "verify_url p url_info =
    (let url = normalized_url url_info;
         result =
           \<lparr>original_url = original_url url_info,
            normalized_url = normalized_url url_info,
            source_file = source_file url_info,
            status_code = 0, status = Unknown, emoji = QuestionMark,
            response_time = 0, error_message = Text ''''\<rparr>
     in if url = [] then
          result\<lparr>status := Invalid, emoji := CrossMark, error_message := EmptyUrlText\<rparr>
        else
          (case request p of
             Respond st elapsed \<Rightarrow>
               (let result1 =
                  (if st < 200 then result\<lparr>status := Informational, emoji := InfoSign\<rparr>
                   else if st < 300 then result\<lparr>status := Active, emoji := CheckMark\<rparr>
                   else if st < 400 then result\<lparr>status := Redirect, emoji := Arrows\<rparr>
                   else if st < 500 then result\<lparr>status := ClientError, emoji := WarningSign\<rparr>
                   else result\<lparr>status := ServerError, emoji := CrossMark\<rparr>)
                in result1\<lparr>status_code := st, response_time := elapsed\<rparr>)
           | Raise e \<Rightarrow> handle_error result e))"

definition MAX_ASYNC_TASKS :: nat where
  "MAX_ASYNC_TASKS = 256"

definition CHUNK_SIZE :: nat where
  "CHUNK_SIZE = 50"

text \<open>\<open>xs[a:b]\<close> for non-negative \<open>a\<close> and \<open>b\<close>.\<close>

definition slice :: "'a list \<Rightarrow> nat \<Rightarrow> nat \<Rightarrow> 'a list" where
  "slice xs a b = drop a (take b xs)"

text \<open>
  \<open>asyncio.gather\<close> returns the results in the order of the awaitables it was given,
  whatever the order in which they finish. The environment \<open>env\<close> gives the probe that
  the candidate at each position of the input meets.
\<close>

definition gather :: "(nat \<Rightarrow> probe) \<Rightarrow> nat \<Rightarrow> 's url_info list \<Rightarrow> 's result list" where
  "gather env start batch =
     map (\<lambda>(j, url_info). verify_url (env (start + j)) url_info) (enumerate 0 batch)"

function batch_loop ::
  "(nat \<Rightarrow> probe) \<Rightarrow> 's url_info list \<Rightarrow> nat \<Rightarrow> nat \<Rightarrow> 's result list \<Rightarrow> 's result list" where
  "batch_loop env urls batches i results =
     (if i < batches then
        (let batch_size = CHUNK_SIZE;
             start_idx = i * batch_size;
             end_idx = min ((i + 1) * batch_size) (length urls);
             batch = slice urls start_idx end_idx;
             batch_results = gather env start_idx batch
         in batch_loop env urls batches (i + 1) (results @ batch_results))
      else results)"
  by pat_completeness auto
termination
  by (relation "measure (\<lambda>(env, urls, batches, i, results). batches - i)") auto

declare batch_loop.simps [simp del]

text \<open>
  The number of batches is \<open>math.ceil(len(urls) / batch_size)\<close>. The division is a
  floating-point one in the source; for every length a list can have, its ceiling is the
  ceiling of the exact quotient, which the model takes.
\<close>

definition verify_urls :: "(nat \<Rightarrow> probe) \<Rightarrow> 's url_info list \<Rightarrow> 's result list" where
  "verify_urls env urls =
     batch_loop env urls (nat \<lceil>rat_of_nat (length urls) / rat_of_nat CHUNK_SIZE\<rceil>) 0 []"


section \<open>The normalizer\<close>

text \<open>
  \<open>url.strip()\<close>, \<open>url.rstrip(chars)\<close> and \<open>unicodedata.normalize('NFC', url)\<close>; the last
  one is the identity on the strings modelled here.
\<close>

definition strip :: "string \<Rightarrow> string" where
  "strip s = rev (dropWhile isspace (rev (dropWhile isspace s)))"

definition rstrip_chars :: "string \<Rightarrow> string \<Rightarrow> string" where
  "rstrip_chars s chars = rev (dropWhile (\<lambda>c. c \<in> set chars) (rev s))"

definition nfc :: "string \<Rightarrow> string" where
  "nfc s = s"

subsection \<open>The library function urlparse\<close>

text \<open>
  \<open>urllib.parse.urlparse\<close> belongs to the Python standard library, not to the
  repository. The definitions below follow \<open>urlsplit\<close>, \<open>_splitnetloc\<close>, \<open>_splitparams\<close>
  and \<open>urlparse\<close> of CPython 3.11 statement by statement. Two checks of the library are
  not expanded:
  \<^item> \<open>_check_bracketed_host\<close>, which parses the text between \<open>[\<close> and \<open>]\<close> as an IP
    address and is absent from older releases, is the parameter \<open>bracketed_host_ok\<close>
    (true when the library accepts the host);
  \<^item> \<open>_checknetloc\<close> raises only when compatibility normalisation of the host produces
    one of \<open>/?#@:\<close>, which no character below U+0100 does.
  A \<open>ValueError\<close> of the library is the only exception that the body of
  \<open>normalize_url\<close> can raise on a string.
\<close>

datatype py_exception = ValueError

record ParseResult =
  scheme :: string
  netloc :: string
  path :: string
  params :: string
  query :: string
  fragment :: string

definition C0_CONTROL_OR_SPACE :: "char \<Rightarrow> bool" where
  "C0_CONTROL_OR_SPACE c \<longleftrightarrow> (of_char c :: nat) \<le> 32"

text \<open>Tab, carriage return and line feed.\<close>

definition UNSAFE_URL_BYTES_TO_REMOVE :: string where
  "UNSAFE_URL_BYTES_TO_REMOVE = [CHR 0x09, CHR 0x0D, CHR 0x0A]"

definition scheme_chars :: string where
  "scheme_chars =
     ''abcdefghijklmnopqrstuvwxyz'' @ ''ABCDEFGHIJKLMNOPQRSTUVWXYZ'' @ ''0123456789'' @ ''+-.''"

definition uses_params :: "string list" where
  "uses_params = ['''', ''ftp'', ''hdl'', ''prospero'', ''http'', ''imap'',
     ''https'', ''shttp'', ''rtsp'', ''rtsps'', ''rtspu'', ''sip'',
     ''sips'', ''mms'', ''sftp'', ''tel'']"

text \<open>\<open>c.isascii() and c.isalpha()\<close>.\<close>

definition ascii_alpha :: "char \<Rightarrow> bool" where
  "ascii_alpha c \<longleftrightarrow> (let n = (of_char c :: nat) in
     (65 \<le> n \<and> n \<le> 90) \<or> (97 \<le> n \<and> n \<le> 122))"

text \<open>
  The two halves of a string around the first occurrence of a character \<open>d\<close> that occurs
  in it: \<open>s[:s.find(d)]\<close> and \<open>s[s.find(d)+1:]\<close>, also the results of \<open>s.split(d, 1)\<close>
  and of \<open>s.partition(d)\<close>.
\<close>

definition before :: "char \<Rightarrow> string \<Rightarrow> string" where
  "before d s = takeWhile (\<lambda>c. c \<noteq> d) s"

definition after :: "char \<Rightarrow> string \<Rightarrow> string" where
  "after d s = drop 1 (dropWhile (\<lambda>c. c \<noteq> d) s)"

definition splitnetloc :: "string \<Rightarrow> nat \<Rightarrow> string \<times> string" where
  "splitnetloc url start =
     (let delim = start + length (takeWhile (\<lambda>c. c \<notin> set ''/?#'') (drop start url))
      in (slice url start delim, drop delim url))"

text \<open>
  \<open>_splitparams\<close>, called only when the string contains a semicolon: the semicolon is
  looked for from the last slash on.
\<close>

definition splitparams :: "string \<Rightarrow> string \<times> string" where
  "splitparams url =
     (if CHR ''/'' \<in> set url then
        (let segment = rev (takeWhile (\<lambda>c. c \<noteq> CHR ''/'') (rev url));
             front = take (length url - length segment) url
         in if CHR '';'' \<in> set segment
            then (front @ before CHR '';'' segment, after CHR '';'' segment)
            else (url, ''''))
      else (before CHR '';'' url, after CHR '';'' url))"

text \<open>
  \<open>urlsplit\<close> returns scheme, host, path, query and fragment. The test \<open>i > 0\<close> on the
  position of the first colon is \<open>candidate \<noteq> []\<close> together with the presence of a colon,
  and makes \<open>hd url1\<close> the first character of a non-empty string.
\<close>

definition urlsplit ::
  "(string \<Rightarrow> bool) \<Rightarrow> string \<Rightarrow>
     py_exception + (string \<times> string \<times> string \<times> string \<times> string)" where
  "urlsplit bracketed_host_ok url0 =
     (let url1 = filter (\<lambda>c. c \<notin> set UNSAFE_URL_BYTES_TO_REMOVE)
                   (dropWhile C0_CONTROL_OR_SPACE url0);
          candidate = before CHR '':'' url1;
          (sch, url2) =
            (if CHR '':'' \<in> set url1 \<and> candidate \<noteq> [] \<and> ascii_alpha (hd url1) \<and>
                list_all (\<lambda>c. c \<in> set scheme_chars) candidate
             then (lower candidate, after CHR '':'' url1)
             else ('''', url1));
          (loc, url3) =
            (if take 2 url2 = ''//'' then splitnetloc url2 2 else ('''', url2));
          opening = (CHR ''['' \<in> set loc);
          closing = (CHR '']'' \<in> set loc)
      in if take 2 url2 = ''//'' \<and> ((opening \<and> \<not> closing) \<or> (closing \<and> \<not> opening)) then
           Inl ValueError
         else if take 2 url2 = ''//'' \<and> opening \<and> closing \<and>
                 \<not> bracketed_host_ok (before CHR '']'' (after CHR ''['' loc)) then
           Inl ValueError
         else
           (let (url4, frag) =
                  (if CHR ''#'' \<in> set url3 then (before CHR ''#'' url3, after CHR ''#'' url3)
                   else (url3, ''''));
                (url5, qry) =
                  (if CHR ''?'' \<in> set url4 then (before CHR ''?'' url4, after CHR ''?'' url4)
                   else (url4, ''''))
            in Inr (sch, loc, url5, qry, frag)))"

definition urlparse :: "(string \<Rightarrow> bool) \<Rightarrow> string \<Rightarrow> py_exception + ParseResult" where
  "urlparse bracketed_host_ok url =
     (case urlsplit bracketed_host_ok url of
        Inl e \<Rightarrow> Inl e
      | Inr (sch, loc, url1, qry, frag) \<Rightarrow>
          (let (url2, prm) =
                 (if sch \<in> set uses_params \<and> CHR '';'' \<in> set url1 then splitparams url1
                  else (url1, ''''))
           in Inr \<lparr>scheme = sch, netloc = loc, path = url2, params = prm,
                    query = qry, fragment = frag\<rparr>))"

subsection \<open>normalize_url\<close>

text \<open>
  The body of the \<open>try\<close> block: it returns a string, returns \<open>None\<close>, or raises.
\<close>

definition normalize_try :: "(string \<Rightarrow> bool) \<Rightarrow> string \<Rightarrow> py_exception + string option" where
  "normalize_try bracketed_host_ok url0 =
     (let url1 = rstrip_chars (strip url0) ''.,:;!?'';
          url2 = nfc url1;
          prefixed =
            (if startswith url2 ''http://'' \<or> startswith url2 ''https://'' then Some url2
             else if startswith url2 ''//'' then Some (''https:'' @ url2)
             else if \<not> contains ''://'' url2 \<and> CHR ''.'' \<in> set url2 then
               Some (''https://'' @ url2)
             else None)
      in case prefixed of
           None \<Rightarrow> Inr None
         | Some url \<Rightarrow>
             (case urlparse bracketed_host_ok url of
                Inl e \<Rightarrow> Inl e
              | Inr parsed \<Rightarrow>
                  if netloc parsed = [] then Inr None
                  else Inr (Some (scheme parsed @ ''://'' @ lower (netloc parsed) @ path parsed))))"

text \<open>
  The whole function: the bare \<open>except\<close> turns an exception into \<open>None\<close>. The cache of
  \<open>lru_cache\<close> stores results of a function without effects and is not visible.
\<close>

definition normalize_url :: "(string \<Rightarrow> bool) \<Rightarrow> string \<Rightarrow> string option" where
  "normalize_url bracketed_host_ok url =
     (case normalize_try bracketed_host_ok url of Inl e \<Rightarrow> None | Inr r \<Rightarrow> r)"


section \<open>The extractor\<close>

text \<open>
  \<open>URL_REGEX\<close> is \<open>(https?://[^<\s'"]{8,})\<close>. A match at the head of a string is the
  scheme prefix followed by the longest run of characters of the class, when that run has
  at least eight characters.
\<close>

definition match_scheme :: "string \<Rightarrow> nat option" where
  "match_scheme s =
     (if startswith s ''https://'' then Some 8
      else if startswith s ''http://'' then Some 7
      else None)"

definition url_char :: "char \<Rightarrow> bool" where
  "url_char c \<longleftrightarrow> c \<noteq> CHR ''<'' \<and> \<not> isspace c \<and> c \<noteq> CHR 0x27 \<and> c \<noteq> CHR 0x22"

definition match_URL_REGEX :: "string \<Rightarrow> string option" where
  "match_URL_REGEX s =
     (case match_scheme s of
        None \<Rightarrow> None
      | Some k \<Rightarrow>
          (let run = takeWhile url_char (drop k s)
           in if 8 \<le> length run then Some (take k s @ run) else None))"

text \<open>
  The second pattern of \<open>_extract_text_urls\<close> is \<open>https?://[^<\s]{8,}[^\s>]\<close>. The greedy
  run is shortened one character at a time, down to eight, until the character after it
  belongs to the last class.
\<close>

definition alt_char :: "char \<Rightarrow> bool" where
  "alt_char c \<longleftrightarrow> c \<noteq> CHR ''<'' \<and> \<not> isspace c"

definition alt_last :: "char \<Rightarrow> bool" where
  "alt_last c \<longleftrightarrow> \<not> isspace c \<and> c \<noteq> CHR ''>''"

fun backtrack :: "string \<Rightarrow> nat \<Rightarrow> nat option" where
  "backtrack rest n =
     (if n < 8 then None
      else if n < length rest \<and> alt_last (rest ! n) then Some (Suc n)
      else backtrack rest (n - 1))"

declare backtrack.simps [simp del]

definition match_alt_regex :: "string \<Rightarrow> string option" where
  "match_alt_regex s =
     (case match_scheme s of
        None \<Rightarrow> None
      | Some k \<Rightarrow>
          (case backtrack (drop k s) (length (takeWhile alt_char (drop k s))) of
             None \<Rightarrow> None
           | Some n \<Rightarrow> Some (take (k + n) s)))"

text \<open>
  \<open>re.findall\<close>: the matches from left to right, without overlap. After a match \<open>x\<close> at
  the head of \<open>c # cs\<close> the search goes on behind it, at \<open>drop (length x - 1) cs\<close>.
\<close>

fun findall :: "(string \<Rightarrow> string option) \<Rightarrow> string \<Rightarrow> string list" where
  "findall m [] = []"
| "findall m (c # cs) =
     (case m (c # cs) of
        Some x \<Rightarrow> x # findall m (drop (length x - 1) cs)
      | None \<Rightarrow> findall m cs)"

text \<open>
  A Python \<open>set\<close> built from a list: its elements in some order, each once. The order
  in which Python iterates over a set is not specified; the properties below speak about
  the elements of the resulting lists only.
\<close>

definition py_set :: "'a list \<Rightarrow> 'a list" where
  "py_set xs = remdups xs"

definition normalize_urls ::
  "(string \<Rightarrow> bool) \<Rightarrow> string list \<Rightarrow> 's \<Rightarrow> 's url_info list" where
  "normalize_urls bracketed_host_ok urls file_path =
     concat (map (\<lambda>url.
       (case normalize_url bracketed_host_ok url of
          None \<Rightarrow> []
        | Some norm_url \<Rightarrow>
            if norm_url = [] then []
            else [\<lparr>original_url = url, normalized_url = norm_url, source_file = file_path\<rparr>]))
       urls)"

definition extract_text_urls ::
  "(string \<Rightarrow> bool) \<Rightarrow> string \<Rightarrow> 's \<Rightarrow> 's url_info list" where
  "extract_text_urls bracketed_host_ok content file_path =
     (let urls = py_set (findall match_URL_REGEX content);
          alt_urls = py_set (findall match_alt_regex content)
      in normalize_urls bracketed_host_ok (py_set (urls @ alt_urls)) file_path)"

definition extract_from_text ::
  "(string \<Rightarrow> bool) \<Rightarrow> string \<Rightarrow> 's \<Rightarrow> 's url_info list" where
  "extract_from_text bracketed_host_ok text source_name =
     (let matches = findall match_URL_REGEX text;
          urls = py_set (concat (map (\<lambda>match.
                   (case normalize_url bracketed_host_ok match of
                      None \<Rightarrow> []
                    | Some norm_url \<Rightarrow> if norm_url = [] then [] else [norm_url]))
                   matches))
      in map (\<lambda>url. \<lparr>original_url = url, normalized_url = url, source_file = source_name\<rparr>)
           urls)"

text \<open>
  The default value of the parameter \<open>source_name\<close>, a four-character label meaning
  "manual input", as its code points. Every caller in the program leaves the default.
\<close>

definition manual_input :: "nat list" where
  "manual_input = [0x624B, 0x52A8, 0x8F93, 0x5165]"


section \<open>The application around the verifier\<close>

text \<open>
  The part of \<open>UctApp\<close> that takes part in a verification: the flag \<open>running\<close>, the
  candidates, the stored results, two counters of \<open>stats\<close>, and the rows shown in the
  result tree. The widgets and the progress bar are left out.
\<close>

record 's app =
  running :: bool
  urls :: "'s url_info list"
  results :: "'s result list"
  urls_verified :: nat
  success_count :: nat
  results_tree :: "'s result list"

definition stop_validation :: "'s app \<Rightarrow> 's app" where
  "stop_validation app = (if running app then app\<lparr>running := False\<rparr> else app)"

definition process_results_batch :: "'s result list \<Rightarrow> 's app \<Rightarrow> 's app" where
  "process_results_batch batch app =
     app\<lparr>urls_verified := urls_verified app + length batch,
         success_count := success_count app +
           length (filter (\<lambda>res. status res \<in> {Active, Redirect}) batch),
         results_tree := results_tree app @ batch\<rparr>"

text \<open>
  The stop button belongs to another thread. A run of \<open>verify_urls_async\<close> is modelled
  with the moment at which \<open>stop_validation\<close> is called: never, while \<open>verify_urls\<close> is
  awaited (after the batch of the verifier with the given number), or after the given
  number of batches has been put on display, before the next test of the flag.
\<close>

datatype stop_request = Never | DuringVerification nat | AfterDisplayBatch nat

text \<open>
  The loop \<open>for i in range(0, total, batch_size)\<close> of \<open>verify_urls_async\<close>, which tests
  the flag before each batch it displays.
\<close>

function display_loop :: "stop_request \<Rightarrow> 's result list \<Rightarrow> nat \<Rightarrow> 's app \<Rightarrow> 's app" where
  "display_loop stop rs i app =
     (if i < length rs then
        (let app1 = (if stop = AfterDisplayBatch (i div CHUNK_SIZE) then stop_validation app
                     else app)
         in if \<not> running app1 then app1
            else display_loop stop rs (i + CHUNK_SIZE)
                   (process_results_batch (slice rs i (i + CHUNK_SIZE)) app1))
      else app)"
  by pat_completeness auto
termination
  by (relation "measure (\<lambda>(stop, rs, i, app). length rs - i)") (auto simp: CHUNK_SIZE_def)

declare display_loop.simps [simp del]

text \<open>
  \<open>verify_urls_async\<close>: the verifier is awaited first. It has no access to the flag, so
  a stop during the verification only changes what the display loop finds afterwards.
  All results are stored at the end.
\<close>

definition verify_urls_async ::
  "stop_request \<Rightarrow> (nat \<Rightarrow> probe) \<Rightarrow> 's app \<Rightarrow> 's app" where
  "verify_urls_async stop env app =
     (let rs = verify_urls env (urls app);
          app1 = (case stop of DuringVerification k \<Rightarrow> stop_validation app | _ \<Rightarrow> app);
          app2 = display_loop stop rs 0 app1
      in app2\<lparr>results := rs\<rparr>)"


section \<open>The tasks of one run and the semaphore\<close>

text \<open>
  One call of \<open>verify_urls\<close> creates one \<open>asyncio.Semaphore\<close> and, for each batch, one
  task per candidate; a task runs \<open>_verify_url\<close> inside \<open>async with semaphore\<close>. The
  event loop interleaves the tasks at their suspension points. A state of the run holds
  the value of the semaphore, the number of batches started, and for each task of the
  batch being gathered whether it waits for the semaphore, runs its probe, or is done.
  \<open>acquire\<close> is possible when the value is positive and decrements it; leaving the
  \<open>async with\<close> block increments it; \<open>gather\<close> returns when every task is done, and
  only then the loop creates the tasks of the next batch.
\<close>

datatype task = Waiting | InFlight | Finished

record run =
  permits :: nat
  next_batch :: nat
  tasks :: "task list"

definition batch_count :: "nat \<Rightarrow> nat" where
  "batch_count n = nat \<lceil>rat_of_nat n / rat_of_nat CHUNK_SIZE\<rceil>"

definition batch_length :: "nat \<Rightarrow> nat \<Rightarrow> nat" where
  "batch_length n i = min ((i + 1) * CHUNK_SIZE) n - i * CHUNK_SIZE"

definition start_run :: run where
  "start_run = \<lparr>permits = min MAX_ASYNC_TASKS 100, next_batch = 0, tasks = []\<rparr>"

definition in_flight :: "run \<Rightarrow> nat" where
  "in_flight s = length (filter (\<lambda>t. t = InFlight) (tasks s))"

inductive step :: "nat \<Rightarrow> run \<Rightarrow> run \<Rightarrow> bool" for n :: nat where
  gather_batch:
    "list_all (\<lambda>t. t = Finished) (tasks s) \<Longrightarrow> next_batch s < batch_count n \<Longrightarrow>
     step n s (s\<lparr>tasks := replicate (batch_length n (next_batch s)) Waiting,
                 next_batch := next_batch s + 1\<rparr>)"
| acquire:
    "j < length (tasks s) \<Longrightarrow> tasks s ! j = Waiting \<Longrightarrow> 0 < permits s \<Longrightarrow>
     step n s (s\<lparr>tasks := (tasks s)[j := InFlight], permits := permits s - 1\<rparr>)"
| release:
    "j < length (tasks s) \<Longrightarrow> tasks s ! j = InFlight \<Longrightarrow>
     step n s (s\<lparr>tasks := (tasks s)[j := Finished], permits := permits s + 1\<rparr>)"

inductive reachable :: "nat \<Rightarrow> run \<Rightarrow> bool" for n :: nat where
  initial: "reachable n start_run"
| advance: "reachable n s \<Longrightarrow> step n s s' \<Longrightarrow> reachable n s'"


section \<open>Notions of the specification\<close>

text \<open>The candidate that a result extends.\<close>

definition candidate_of :: "'s result \<Rightarrow> 's url_info" where
  "candidate_of r =
     \<lparr>original_url = original_url r, normalized_url = normalized_url r,
      source_file = source_file r\<rparr>"

text \<open>
  The error categories of the specification: timeout, connection refused, DNS failure, TLS
  failure, rate limited, generic network error, and invalid.
\<close>

definition is_error_label :: "status_label \<Rightarrow> bool" where
  "is_error_label s \<longleftrightarrow>
     s \<in> {Timeout, CannotConnect, DomainError, SslError, TooManyRequests, NetworkError, Invalid}"

text \<open>A probe that raises, or whose HTTP status is not zero.\<close>

definition answers_nonzero :: "probe \<Rightarrow> bool" where
  "answers_nonzero p = (case request p of Respond st _ \<Rightarrow> st \<noteq> 0 | Raise _ \<Rightarrow> True)"

text \<open>
  The taxonomy of the specification, written as it is stated there: an ordered table of
  keyword lists and categories, where the first row with a keyword in the description
  wins and the generic network error is the default. The keywords are looked for without
  regard to case, in the lower-cased description.
\<close>

definition taxonomy :: "(string list \<times> status_label) list" where
  "taxonomy =
     [([''timed out''], Timeout),
      ([''cannot connect''], CannotConnect),
      ([''name not known'', ''gaierror''], DomainError),
      ([''ssl'', ''certificate''], SslError),
      ([''too many''], TooManyRequests)]"

fun first_match :: "(string list \<times> status_label) list \<Rightarrow> string \<Rightarrow> status_label" where
  "first_match [] err = NetworkError"
| "first_match ((keywords, label) # rules) err =
     (if list_ex (\<lambda>kw. contains kw err) keywords then label else first_match rules err)"

definition classify_error :: "string \<Rightarrow> status_label" where
  "classify_error d = first_match taxonomy (lower d)"

text \<open>
  A raw match with at least eight characters after its scheme prefix.
\<close>

definition raw_match_ok :: "string \<Rightarrow> bool" where
  "raw_match_ok m \<longleftrightarrow>
     (startswith m ''http://'' \<and> 8 \<le> length m - 7) \<or>
     (startswith m ''https://'' \<and> 8 \<le> length m - 8)"

subsection \<open>Notions for the proofs about the normalizer\<close>

text \<open>
  The characters that \<open>str.lower\<close> leaves alone and produces from no other
  character: those that are neither an upper-case letter nor the lower-case form of one.
\<close>

definition caseless :: "char \<Rightarrow> bool" where
  "caseless x \<longleftrightarrow> (let n = (of_char x :: nat) in
     n < 65 \<or> (90 < n \<and> n < 97) \<or> (122 < n \<and> n < 192) \<or> n = 215 \<or> n = 247 \<or> n = 255)"

text \<open>The three conditions under which \<open>urlsplit\<close> raises for a host.\<close>

definition netloc_rejected :: "(string \<Rightarrow> bool) \<Rightarrow> string \<Rightarrow> bool" where
  "netloc_rejected ok loc \<longleftrightarrow>
     (CHR ''['' \<in> set loc \<and> CHR '']'' \<notin> set loc) \<or>
     (CHR '']'' \<in> set loc \<and> CHR ''['' \<notin> set loc) \<or>
     (CHR ''['' \<in> set loc \<and> CHR '']'' \<in> set loc \<and>
      \<not> ok (before CHR '']'' (after CHR ''['' loc)))"

text \<open>The path that \<open>urlparse\<close> keeps of the path of \<open>urlsplit\<close>, for a scheme with parameters.\<close>

definition path_of :: "string \<Rightarrow> string" where
  "path_of p = (if CHR '';'' \<in> set p then fst (splitparams p) else p)"

subsection \<open>Concrete inputs for the examples\<close>

abbreviation example_candidate :: "string url_info" where
  "example_candidate \<equiv>
     \<lparr>original_url = ''http://a.example/x'', normalized_url = ''http://a.example/x'',
      source_file = ''notes.txt''\<rparr>"

abbreviation answering :: "int \<Rightarrow> probe" where
  "answering code \<equiv> \<lparr>head_attempt = Respond code 0, get_attempt = Respond code 0\<rparr>"

abbreviation failing :: "string \<Rightarrow> probe" where
  "failing d \<equiv>
     \<lparr>head_attempt = Raise \<lparr>type_name = ''ClientError'', description = d\<rparr>,
      get_attempt = Raise \<lparr>type_name = ''ClientError'', description = d\<rparr>\<rparr>"

abbreviation example_app :: "string app" where
  "example_app \<equiv>
     \<lparr>running = True, urls = replicate 51 example_candidate, results = [],
      urls_verified = 0, success_count = 0, results_tree = []\<rparr>"

abbreviation accept_all :: "string \<Rightarrow> bool" where
  "accept_all \<equiv> \<lambda>host. True"


section \<open>Properties of the verifier\<close>

subsection \<open>The batches cover the input in order\<close>

lemma gather_slice:
  "gather env a (slice us a b) =
     map (\<lambda>j. verify_url (env j) (us ! j)) [a ..< min b (length us)]"
proof (rule nth_equalityI)
  show "length (gather env a (slice us a b)) =
        length (map (\<lambda>j. verify_url (env j) (us ! j)) [a ..< min b (length us)])"
    by (simp add: gather_def slice_def min.commute)
next
  fix j assume "j < length (gather env a (slice us a b))"
  then have j: "j < min b (length us) - a"
    by (simp add: gather_def slice_def min.commute)
  then have "a + j < length (take b us)" "a + j < b"
    by (simp_all add: less_diff_conv add.commute)
  then have "slice us a b ! j = us ! (a + j)"
    by (simp add: slice_def)
  moreover have "j < length (slice us a b)"
    using j by (simp add: slice_def min.commute)
  ultimately have "enumerate 0 (slice us a b) ! j = (j, us ! (a + j))"
    by (simp add: nth_enumerate_eq)
  then have "enumerate 0 (drop a (take b us)) ! j = (j, us ! (a + j))"
    by (simp add: slice_def)
  moreover have "[a ..< min b (length us)] ! j = a + j"
    using j by (simp add: less_diff_conv add.commute)
  ultimately show "gather env a (slice us a b) ! j =
        map (\<lambda>j. verify_url (env j) (us ! j)) [a ..< min b (length us)] ! j"
    using j by (simp add: gather_def slice_def)
qed

lemma batch_loop_map:
  "i \<le> batches \<Longrightarrow>
   batch_loop env us batches i rs =
     rs @ map (\<lambda>j. verify_url (env j) (us ! j))
       [min (i * CHUNK_SIZE) (length us) ..< min (batches * CHUNK_SIZE) (length us)]"
proof (induction env us batches i rs rule: batch_loop.induct)
  case (1 env us batches i rs)
  let ?f = "\<lambda>j. verify_url (env j) (us ! j)"
  let ?n = "length us"
  show ?case
  proof (cases "i < batches")
    case False
    with "1.prems" have "i = batches" by simp
    then show ?thesis by (subst batch_loop.simps) simp
  next
    case True
    have step: "batch_loop env us batches i rs =
       batch_loop env us batches (i + 1)
         (rs @ gather env (i * CHUNK_SIZE)
            (slice us (i * CHUNK_SIZE) (min ((i + 1) * CHUNK_SIZE) ?n)))"
      using True by (subst batch_loop.simps) (simp add: Let_def)
    have ih: "batch_loop env us batches (i + 1)
         (rs @ gather env (i * CHUNK_SIZE)
            (slice us (i * CHUNK_SIZE) (min ((i + 1) * CHUNK_SIZE) ?n))) =
       (rs @ gather env (i * CHUNK_SIZE)
            (slice us (i * CHUNK_SIZE) (min ((i + 1) * CHUNK_SIZE) ?n))) @
       map ?f [min ((i + 1) * CHUNK_SIZE) ?n ..< min (batches * CHUNK_SIZE) ?n]"
      using "1.IH"[OF True refl refl refl refl refl] True by simp
    have g: "gather env (i * CHUNK_SIZE)
            (slice us (i * CHUNK_SIZE) (min ((i + 1) * CHUNK_SIZE) ?n)) =
         map ?f [min (i * CHUNK_SIZE) ?n ..< min ((i + 1) * CHUNK_SIZE) ?n]"
      by (cases "i * CHUNK_SIZE \<le> ?n") (simp_all add: gather_slice min_def)
    have le1: "min (i * CHUNK_SIZE) ?n \<le> min ((i + 1) * CHUNK_SIZE) ?n"
      by (simp add: min_def)
    have "(i + 1) * CHUNK_SIZE \<le> batches * CHUNK_SIZE"
      using True by (simp del: mult_Suc add: mult_le_mono1)
    then have le2: "min ((i + 1) * CHUNK_SIZE) ?n \<le> min (batches * CHUNK_SIZE) ?n"
      by (simp add: min_def)
    have split: "[min (i * CHUNK_SIZE) ?n ..< min (batches * CHUNK_SIZE) ?n] =
          [min (i * CHUNK_SIZE) ?n ..< min ((i + 1) * CHUNK_SIZE) ?n] @
          [min ((i + 1) * CHUNK_SIZE) ?n ..< min (batches * CHUNK_SIZE) ?n]"
      using le1 le2 by (metis le_Suc_ex upt_add_eq_append)
    have "batch_loop env us batches i rs =
       batch_loop env us batches (i + 1)
         (rs @ map ?f [min (i * CHUNK_SIZE) ?n ..< min ((i + 1) * CHUNK_SIZE) ?n])"
      using step unfolding g .
    also have "\<dots> =
       (rs @ map ?f [min (i * CHUNK_SIZE) ?n ..< min ((i + 1) * CHUNK_SIZE) ?n]) @
       map ?f [min ((i + 1) * CHUNK_SIZE) ?n ..< min (batches * CHUNK_SIZE) ?n]"
      using ih unfolding g .
    also have "\<dots> = rs @ map ?f [min (i * CHUNK_SIZE) ?n ..< min (batches * CHUNK_SIZE) ?n]"
      unfolding split by simp
    finally show ?thesis .
  qed
qed

lemma batches_cover:
  "length us \<le> nat \<lceil>rat_of_nat (length us) / rat_of_nat CHUNK_SIZE\<rceil> * CHUNK_SIZE"
proof -
  let ?n = "length us"
  have "rat_of_nat ?n = rat_of_nat ?n / 50 * 50"
    by simp
  also have "\<dots> \<le> of_int \<lceil>rat_of_nat ?n / 50\<rceil> * 50"
    by (rule mult_right_mono[OF le_of_int_ceiling]) simp
  finally have "rat_of_nat ?n \<le> of_int (\<lceil>rat_of_nat ?n / 50\<rceil> * 50)"
    by simp
  then have "int ?n \<le> \<lceil>rat_of_nat ?n / 50\<rceil> * 50"
    by (metis of_int_le_iff of_int_of_nat_eq)
  then show ?thesis
    by (simp add: CHUNK_SIZE_def nat_mult_distrib le_nat_iff)
qed

lemma verify_urls_map:
  "verify_urls env us = map (\<lambda>j. verify_url (env j) (us ! j)) [0 ..< length us]"
proof -
  let ?b = "nat \<lceil>rat_of_nat (length us) / rat_of_nat CHUNK_SIZE\<rceil>"
  have "batch_loop env us ?b 0 [] =
     [] @ map (\<lambda>j. verify_url (env j) (us ! j))
       [min (0 * CHUNK_SIZE) (length us) ..< min (?b * CHUNK_SIZE) (length us)]"
    by (rule batch_loop_map) simp
  moreover have "min (?b * CHUNK_SIZE) (length us) = length us"
    using batches_cover[of us] by (simp add: min_def)
  ultimately show ?thesis
    by (simp add: verify_urls_def)
qed


lemma candidate_of_handle_error: "candidate_of (handle_error r e) = candidate_of r"
  by (simp add: candidate_of_def handle_error_def Let_def)

lemma status_code_handle_error: "status_code (handle_error r e) = status_code r"
  by (simp add: handle_error_def Let_def)

lemma candidate_of_verify_url: "candidate_of (verify_url p u) = u"
  by (cases "request p")
     (simp_all add: verify_url_def Let_def candidate_of_handle_error,
      simp_all add: candidate_of_def)

text \<open>
  C3. For every list of candidates and every behaviour of the network, \<open>verify_urls\<close>
  returns as many results as there are candidates; the result at each position is the one
  \<open>_verify_url\<close> computes for the candidate at that position, so that the results follow
  the input order within and across batches; and the candidates that the results extend
  are the input list itself: none is dropped, none is answered twice.
\<close>

theorem verify_urls_one_result_per_candidate:
  "length (verify_urls env us) = length us \<and>
   verify_urls env us = map (\<lambda>j. verify_url (env j) (us ! j)) [0 ..< length us] \<and>
   map candidate_of (verify_urls env us) = us"
proof -
  have "map candidate_of (verify_urls env us) = map (\<lambda>j. us ! j) [0 ..< length us]"
    by (simp add: verify_urls_map candidate_of_verify_url)
  then have "map candidate_of (verify_urls env us) = us"
    by (simp add: map_nth)
  then show ?thesis
    by (simp add: verify_urls_map)
qed

theorem verify_urls_one_result_per_candidate_witness:
  "length (verify_urls (\<lambda>j. answering 200) (replicate 51 example_candidate)) = 51 \<and>
   map candidate_of (verify_urls (\<lambda>j. answering 200) (replicate 51 example_candidate)) =
     replicate 51 example_candidate"
proof -
  have "length (verify_urls (\<lambda>j. answering 200) (replicate 51 example_candidate)) =
      length (replicate 51 example_candidate) \<and>
    map candidate_of (verify_urls (\<lambda>j. answering 200) (replicate 51 example_candidate)) =
      replicate 51 example_candidate"
    using verify_urls_one_result_per_candidate
      [of "\<lambda>j. answering 200" "replicate 51 example_candidate"]
    by blast
  then show ?thesis
    by simp
qed

subsection \<open>Classification\<close>

lemma startswith_lower:
  "startswith s kw \<Longrightarrow> \<forall>c\<in>set kw. lower_char c = c \<Longrightarrow> startswith (lower s) kw"
  by (induction s kw rule: startswith.induct) (auto simp: lower_def)

lemma contains_lower:
  "contains kw s \<Longrightarrow> \<forall>c\<in>set kw. lower_char c = c \<Longrightarrow> contains kw (lower s)"
proof (induction s)
  case Nil
  then show ?case by (simp add: lower_def)
next
  case (Cons c s)
  then show ?case
    using startswith_lower[of "c # s" kw] by (auto simp: lower_def)
qed

lemma timed_out_is_lower: "\<forall>c\<in>set ''timed out''. lower_char c = c"
  by code_simp

text \<open>
  C5. For a candidate with a non-empty normalized URL: when the request answers with a
  status code, the result carries that code and its label follows the breakpoints (below
  200 informational, 200 to 299 active, 300 to 399 redirect, 400 to 499 client error, 500
  and above server error); when the request fails with an exception whose description
  contains "timed out", the label is the timeout one and the status code is 0.
\<close>

theorem classification_table:
  assumes "normalized_url u \<noteq> []"
  shows "(request p = Respond code t \<longrightarrow>
            status_code (verify_url p u) = code \<and>
            (code < 200 \<longrightarrow> status (verify_url p u) = Informational) \<and>
            (200 \<le> code \<and> code \<le> 299 \<longrightarrow> status (verify_url p u) = Active) \<and>
            (300 \<le> code \<and> code \<le> 399 \<longrightarrow> status (verify_url p u) = Redirect) \<and>
            (400 \<le> code \<and> code \<le> 499 \<longrightarrow> status (verify_url p u) = ClientError) \<and>
            (500 \<le> code \<longrightarrow> status (verify_url p u) = ServerError)) \<and>
         (request p = Raise e \<and> contains ''timed out'' (description e) \<longrightarrow>
            status (verify_url p u) = Timeout \<and> status_code (verify_url p u) = 0)"
proof (intro conjI impI)
  assume "request p = Raise e \<and> contains ''timed out'' (description e)"
  then have r: "request p = Raise e" and "contains ''timed out'' (lower (description e))"
    using contains_lower[OF _ timed_out_is_lower] by simp_all
  then show "status (verify_url p u) = Timeout"
    using assms by (simp add: verify_url_def handle_error_def Let_def)
  show "status_code (verify_url p u) = 0"
    using assms r
    by (simp add: verify_url_def status_code_handle_error Let_def)
qed (use assms in \<open>simp_all add: verify_url_def Let_def\<close>)

theorem classification_table_witness:
  "status (verify_url (answering 200) example_candidate) = Active \<and>
   status (verify_url (answering 301) example_candidate) = Redirect \<and>
   status (verify_url (answering 404) example_candidate) = ClientError \<and>
   status (verify_url (answering 503) example_candidate) = ServerError \<and>
   status (verify_url (answering 100) example_candidate) = Informational \<and>
   status (verify_url (failing ''Connection timed out'') example_candidate) = Timeout \<and>
   status_code (verify_url (failing ''Connection timed out'') example_candidate) = 0"
proof -
  have u: "normalized_url example_candidate \<noteq> []"
    by simp
  have a: "request (answering code) = Respond code 0" for code
    by (simp add: request_def)
  have f: "request (failing ''Connection timed out'') =
      Raise \<lparr>type_name = ''ClientError'', description = ''Connection timed out''\<rparr>"
    by (simp add: request_def)
  have c: "contains ''timed out''
      (description \<lparr>type_name = ''ClientError'', description = ''Connection timed out''\<rparr>)"
    by simp
  show ?thesis
    using classification_table[OF u, of "answering 200" 200 0] a[of 200]
      classification_table[OF u, of "answering 301" 301 0] a[of 301]
      classification_table[OF u, of "answering 404" 404 0] a[of 404]
      classification_table[OF u, of "answering 503" 503 0] a[of 503]
      classification_table[OF u, of "answering 100" 100 0] a[of 100]
      classification_table[OF u, of "failing ''Connection timed out''" 0 0
        "\<lparr>type_name = ''ClientError'', description = ''Connection timed out''\<rparr>"] f c
    by simp
qed

text \<open>
  C6. The label that \<open>_handle_error\<close> assigns is the one of the first row of the
  taxonomy (timeout, cannot connect, domain error, SSL error, too many requests, in this
  order) one of whose keywords occurs in the lower-cased description, and the generic
  network error when no row matches. It is one of these six labels, and the status code
  of the result is left as it was.
\<close>

theorem handle_error_precedence:
  "status (handle_error result exc) = classify_error (description exc) \<and>
   status (handle_error result exc) \<in>
     {Timeout, CannotConnect, DomainError, SslError, TooManyRequests, NetworkError} \<and>
   status_code (handle_error result exc) = status_code result"
  by (simp add: handle_error_def classify_error_def taxonomy_def Let_def)

theorem handle_error_precedence_witness:
  "status (handle_error
      \<lparr>original_url = ''http://a.example/x'', normalized_url = ''http://a.example/x'',
       source_file = ''notes.txt'', status_code = 0, status = Unknown, emoji = QuestionMark,
       response_time = 0, error_message = Text ''''\<rparr>
      \<lparr>type_name = ''ClientConnectorError'',
       description = ''Cannot connect to host a.example:443 ssl:default''\<rparr>) = CannotConnect \<and>
   classify_error ''Cannot connect to host a.example:443 ssl:default'' = CannotConnect \<and>
   classify_error ''[SSL: CERTIFICATE_VERIFY_FAILED] certificate verify failed'' = SslError \<and>
   classify_error ''Server disconnected'' = NetworkError"
proof -
  have "classify_error ''Cannot connect to host a.example:443 ssl:default'' = CannotConnect"
    and "classify_error ''[SSL: CERTIFICATE_VERIFY_FAILED] certificate verify failed'' = SslError"
    and "classify_error ''Server disconnected'' = NetworkError"
    by code_simp+
  then show ?thesis
    using handle_error_precedence[of
      "\<lparr>original_url = ''http://a.example/x'', normalized_url = ''http://a.example/x'',
        source_file = ''notes.txt'', status_code = 0, status = Unknown, emoji = QuestionMark,
        response_time = 0, error_message = Text ''''\<rparr>"
      "\<lparr>type_name = ''ClientConnectorError'',
        description = ''Cannot connect to host a.example:443 ssl:default''\<rparr>"]
    by simp
qed

subsection \<open>Status code and error labels\<close>

lemma verify_url_code_zero:
  "normalized_url u = [] \<or> answers_nonzero p \<Longrightarrow>
   (status_code (verify_url p u) = 0 \<longleftrightarrow> is_error_label (status (verify_url p u))) \<and>
   (\<not> is_error_label (status (verify_url p u)) \<longrightarrow>
      status_code (verify_url p u) \<noteq> 0 \<and>
      (\<exists>t. request p = Respond (status_code (verify_url p u)) t))"
  by (cases "request p")
     (auto simp: verify_url_def Let_def answers_nonzero_def is_error_label_def
        handle_error_def)

text \<open>
  C7, as amended. A result of \<open>verify_urls\<close> whose probe did not answer with the HTTP
  status 0 (its candidate has an empty normalized URL and is not probed, or its probe
  raises or answers with a non-zero status) has the status code 0 exactly when its label
  is an error label (timeout, cannot connect, domain error, SSL error, too many requests,
  network error, or invalid), and if its label is another one it carries the non-zero
  status with which the probe of its candidate answered. This holds result by result,
  whatever the other probes of the run answer.
\<close>

theorem status_code_zero_iff_error:
  assumes "j < length us"
    and "normalized_url (us ! j) = [] \<or> answers_nonzero (env j)"
  shows "j < length (verify_urls env us) \<and>
    (status_code (verify_urls env us ! j) = 0 \<longleftrightarrow>
       is_error_label (status (verify_urls env us ! j))) \<and>
    (\<not> is_error_label (status (verify_urls env us ! j)) \<longrightarrow>
       status_code (verify_urls env us ! j) \<noteq> 0 \<and>
       (\<exists>t. request (env j) = Respond (status_code (verify_urls env us ! j)) t))"
proof -
  have "verify_urls env us ! j = verify_url (env j) (us ! j)"
    using assms(1) by (simp add: verify_urls_map)
  with verify_url_code_zero[OF assms(2)] assms(1) show ?thesis
    by (simp add: verify_urls_map)
qed

theorem status_code_zero_iff_error_witness:
  "status_code (verify_urls
      (\<lambda>j. if j = 0 then answering 0 else if j = 1 then answering 200
           else failing ''ssl handshake'')
      [example_candidate, example_candidate, example_candidate] ! 1) = 200 \<and>
   \<not> is_error_label (status (verify_urls
      (\<lambda>j. if j = 0 then answering 0 else if j = 1 then answering 200
           else failing ''ssl handshake'')
      [example_candidate, example_candidate, example_candidate] ! 1)) \<and>
   status_code (verify_urls
      (\<lambda>j. if j = 0 then answering 0 else if j = 1 then answering 200
           else failing ''ssl handshake'')
      [example_candidate, example_candidate, example_candidate] ! 2) = 0 \<and>
   is_error_label (status (verify_urls
      (\<lambda>j. if j = 0 then answering 0 else if j = 1 then answering 200
           else failing ''ssl handshake'')
      [example_candidate, example_candidate, example_candidate] ! 2))"
proof -
  let ?env = "\<lambda>j::nat. if j = 0 then answering 0 else if j = 1 then answering 200
           else failing ''ssl handshake''"
  let ?us = "[example_candidate, example_candidate, example_candidate]"
  have l1: "1 < length ?us" and l2: "2 < length ?us"
    by simp_all
  have h1: "normalized_url (?us ! 1) = [] \<or> answers_nonzero (?env 1)"
    by (simp add: answers_nonzero_def request_def)
  have h2: "normalized_url (?us ! 2) = [] \<or> answers_nonzero (?env 2)"
    by (simp add: answers_nonzero_def request_def)
  have c1: "status_code (verify_urls ?env ?us ! 1) = 200"
    by (simp add: verify_urls_map verify_url_def request_def Let_def)
  have c2: "status_code (verify_urls ?env ?us ! 2) = 0"
    by (simp add: verify_urls_map verify_url_def request_def Let_def status_code_handle_error)
  from status_code_zero_iff_error[where j = 1 and us = ?us and env = ?env, OF l1 h1]
    status_code_zero_iff_error[where j = 2 and us = ?us and env = ?env, OF l2 h2] c1 c2
  show ?thesis
    by simp
qed

text \<open>
  The claim without that condition fails: a server that answers with the status 0 gets
  the informational label, which is not an error label, together with the status code 0.
\<close>

theorem status_code_zero_counterexample:
  "status_code (verify_urls (\<lambda>j. answering 0) [example_candidate] ! 0) = 0 \<and>
   status (verify_urls (\<lambda>j. answering 0) [example_candidate] ! 0) = Informational \<and>
   \<not> is_error_label (status (verify_urls (\<lambda>j. answering 0) [example_candidate] ! 0))"
  by (simp add: verify_urls_map verify_url_def request_def Let_def is_error_label_def)


section \<open>The concurrency bound\<close>

lemma count_update_in:
  "j < length ts \<Longrightarrow> ts ! j \<noteq> InFlight \<Longrightarrow>
   length (filter (\<lambda>t. t = InFlight) (ts[j := InFlight])) =
     Suc (length (filter (\<lambda>t. t = InFlight) ts))"
proof (induction ts arbitrary: j)
  case Nil
  then show ?case by simp
next
  case (Cons t ts)
  then show ?case by (cases j) auto
qed

lemma count_update_out:
  "j < length ts \<Longrightarrow> ts ! j = InFlight \<Longrightarrow> x \<noteq> InFlight \<Longrightarrow>
   Suc (length (filter (\<lambda>t. t = InFlight) (ts[j := x]))) =
     length (filter (\<lambda>t. t = InFlight) ts)"
proof (induction ts arbitrary: j)
  case Nil
  then show ?case by simp
next
  case (Cons t ts)
  then show ?case by (cases j) auto
qed

lemma step_invariant:
  assumes "step n s s'" and "in_flight s + permits s = min MAX_ASYNC_TASKS 100"
  shows "in_flight s' + permits s' = min MAX_ASYNC_TASKS 100"
  using assms
proof (cases rule: step.cases)
  case gather_batch
  have "filter (\<lambda>t. t = InFlight) (tasks s) = []"
    using gather_batch(2) by (induction "tasks s") (auto simp: list_all_iff filter_empty_conv)
  then show ?thesis
    using assms(2) gather_batch(1) by (simp add: in_flight_def)
next
  case (acquire j)
  then show ?thesis
    using assms(2) count_update_in[of j "tasks s"] by (simp add: in_flight_def)
next
  case (release j)
  then show ?thesis
    using assms(2) count_update_out[of j "tasks s" Finished] by (simp add: in_flight_def)
qed

lemma reachable_invariant:
  "reachable n s \<Longrightarrow> in_flight s + permits s = min MAX_ASYNC_TASKS 100"
proof (induction rule: reachable.induct)
  case initial
  show ?case by (simp add: start_run_def in_flight_def)
next
  case (advance s s')
  then show ?case using step_invariant by blast
qed

text \<open>
  C4. In every state that a run of \<open>verify_urls\<close> on \<open>n\<close> candidates can reach, the
  number of probes in flight (tasks inside \<open>async with semaphore\<close>) is at most
  \<open>min(MAX_ASYNC_TASKS, 100)\<close>, which is 100: the probes in flight and the value of the
  one semaphore of the run always add up to that number, across all batches.
\<close>

theorem concurrency_bound:
  assumes "reachable n s"
  shows "in_flight s \<le> min MAX_ASYNC_TASKS 100 \<and> in_flight s \<le> 100"
  using reachable_invariant[OF assms]
  by (simp add: MAX_ASYNC_TASKS_def)

theorem concurrency_bound_witness:
  "reachable 2 \<lparr>permits = 99, next_batch = 1, tasks = [InFlight, Waiting]\<rparr> \<and>
   in_flight \<lparr>permits = 99, next_batch = 1, tasks = [InFlight, Waiting]\<rparr> = 1 \<and>
   in_flight \<lparr>permits = 99, next_batch = 1, tasks = [InFlight, Waiting]\<rparr> \<le> min MAX_ASYNC_TASKS 100"
proof -
  have b: "batch_count 2 = 1"
    by code_simp
  have s0: "reachable 2 start_run"
    by (rule reachable.initial)
  have "step 2 start_run (start_run\<lparr>tasks := replicate (batch_length 2 (next_batch start_run)) Waiting,
                 next_batch := next_batch start_run + 1\<rparr>)"
    by (rule step.gather_batch) (simp_all add: start_run_def b)
  then have st1: "step 2 start_run \<lparr>permits = 100, next_batch = 1, tasks = [Waiting, Waiting]\<rparr>"
    by (simp add: start_run_def batch_length_def CHUNK_SIZE_def MAX_ASYNC_TASKS_def
        numeral_2_eq_2)
  have "step 2 \<lparr>permits = 100, next_batch = 1, tasks = [Waiting, Waiting]\<rparr>
     (\<lparr>permits = 100, next_batch = 1, tasks = [Waiting, Waiting]\<rparr>
        \<lparr>tasks := (tasks \<lparr>permits = 100, next_batch = 1, tasks = [Waiting, Waiting]\<rparr>)[0 := InFlight],
         permits := permits \<lparr>permits = 100, next_batch = 1, tasks = [Waiting, Waiting]\<rparr> - 1\<rparr>)"
    by (rule step.acquire) simp_all
  then have st2: "step 2 \<lparr>permits = 100, next_batch = 1, tasks = [Waiting, Waiting]\<rparr>
     \<lparr>permits = 99, next_batch = 1, tasks = [InFlight, Waiting]\<rparr>"
    by simp
  have r: "reachable 2 \<lparr>permits = 99, next_batch = 1, tasks = [InFlight, Waiting]\<rparr>"
    using reachable.advance[OF reachable.advance[OF s0 st1] st2] .
  from concurrency_bound[OF r] r show ?thesis
    by (simp add: in_flight_def)
qed


section \<open>Cancellation\<close>

lemma drop_take_split:
  assumes "a \<le> b" "b \<le> (c::nat)"
  shows "drop a (take b xs) @ drop b (take c xs) = drop a (take c xs)"
proof -
  have "drop a (take b ys) @ drop b ys = drop a ys" for ys :: "'a list"
  proof (cases "b \<le> length ys")
    case True
    have "drop a ys = drop a (take b ys @ drop b ys)"
      by (simp only: append_take_drop_id)
    also have "\<dots> = drop a (take b ys) @ drop (a - length (take b ys)) (drop b ys)"
      by (rule drop_append)
    also have "a - length (take b ys) = 0"
      using True assms by simp
    finally show ?thesis by simp
  next
    case False
    then show ?thesis by simp
  qed
  from this[of "take c xs"] assms show ?thesis
    by (simp add: min_def)
qed

lemma display_loop_not_running:
  "\<not> running app \<Longrightarrow> display_loop stop rs i app = app"
  by (subst display_loop.simps) (simp add: stop_validation_def Let_def)

lemma display_loop_stop:
  "running app \<Longrightarrow> i = j * CHUNK_SIZE \<Longrightarrow> j \<le> k \<Longrightarrow>
   results_tree (display_loop (AfterDisplayBatch k) rs i app) =
     results_tree app @ drop i (take (k * CHUNK_SIZE) rs) \<and>
   urls_verified (display_loop (AfterDisplayBatch k) rs i app) =
     urls_verified app + length (drop i (take (k * CHUNK_SIZE) rs)) \<and>
   running (display_loop (AfterDisplayBatch k) rs i app) = (length rs \<le> k * CHUNK_SIZE)"
proof (induction "AfterDisplayBatch k" rs i app arbitrary: j rule: display_loop.induct)
  case (1 rs i app)
  show ?case
  proof (cases "i < length rs")
    case False
    then have "display_loop (AfterDisplayBatch k) rs i app = app"
      by (subst display_loop.simps) simp
    moreover have "j * CHUNK_SIZE \<le> k * CHUNK_SIZE"
      using "1.prems" by (metis mult_le_mono1)
    then have "length rs \<le> k * CHUNK_SIZE" "i \<le> k * CHUNK_SIZE"
      using False "1.prems"(2) by linarith+
    ultimately show ?thesis
      using False "1.prems"(1) by simp
  next
    case True
    have jdiv: "i div CHUNK_SIZE = j"
      using "1.prems" by (simp add: CHUNK_SIZE_def)
    show ?thesis
    proof (cases "j = k")
      case True
      then have "display_loop (AfterDisplayBatch k) rs i app = app\<lparr>running := False\<rparr>"
        using \<open>i < length rs\<close> jdiv "1.prems"
        by (subst display_loop.simps) (simp add: stop_validation_def Let_def)
      then show ?thesis
        using True "1.prems" \<open>i < length rs\<close> by simp
    next
      case False
      then have lt: "Suc j \<le> k" using "1.prems" by simp
      let ?app' = "process_results_batch (slice rs i (i + CHUNK_SIZE)) app"
      have unfold: "display_loop (AfterDisplayBatch k) rs i app =
            display_loop (AfterDisplayBatch k) rs (i + CHUNK_SIZE) ?app'"
        using \<open>i < length rs\<close> jdiv False "1.prems"
        by (subst display_loop.simps) (simp add: Let_def)
      have run': "running ?app'"
        using "1.prems" by (simp add: process_results_batch_def)
      have idx: "i + CHUNK_SIZE = Suc j * CHUNK_SIZE"
        using "1.prems" by simp
      let ?app1 = "if AfterDisplayBatch k = AfterDisplayBatch (i div CHUNK_SIZE)
                   then stop_validation app else app"
      have app1: "?app1 = app"
        using jdiv False by simp
      have nn: "\<not> \<not> running ?app1"
        unfolding app1 using "1.prems"(1) by simp
      have run1: "running (process_results_batch (slice rs i (i + CHUNK_SIZE)) ?app1)"
        unfolding app1 using run' .
      have ih: "results_tree (display_loop (AfterDisplayBatch k) rs (i + CHUNK_SIZE) ?app') =
           results_tree ?app' @ drop (i + CHUNK_SIZE) (take (k * CHUNK_SIZE) rs) \<and>
         urls_verified (display_loop (AfterDisplayBatch k) rs (i + CHUNK_SIZE) ?app') =
           urls_verified ?app' + length (drop (i + CHUNK_SIZE) (take (k * CHUNK_SIZE) rs)) \<and>
         running (display_loop (AfterDisplayBatch k) rs (i + CHUNK_SIZE) ?app') =
           (length rs \<le> k * CHUNK_SIZE)"
        using "1.hyps"[OF \<open>i < length rs\<close> refl nn run1 idx lt]
        unfolding app1 .
      have le: "i + CHUNK_SIZE \<le> k * CHUNK_SIZE"
        using lt idx by (metis mult_le_mono1)
      have "slice rs i (i + CHUNK_SIZE) @ drop (i + CHUNK_SIZE) (take (k * CHUNK_SIZE) rs) =
            drop i (take (k * CHUNK_SIZE) rs)"
        unfolding slice_def by (rule drop_take_split) (use le in simp_all)
      then have "results_tree app @ slice rs i (i + CHUNK_SIZE) @
            drop (i + CHUNK_SIZE) (take (k * CHUNK_SIZE) rs) =
          results_tree app @ drop i (take (k * CHUNK_SIZE) rs)"
        and "length (slice rs i (i + CHUNK_SIZE)) +
            length (drop (i + CHUNK_SIZE) (take (k * CHUNK_SIZE) rs)) =
          length (drop i (take (k * CHUNK_SIZE) rs))"
        by (simp_all only: length_append[symmetric])
      then show ?thesis
        using ih unfolding unfold
        by (simp add: process_results_batch_def add.assoc)
    qed
  qed
qed


lemma display_loop_no_stop:
  "running app \<Longrightarrow> \<forall>k. stop \<noteq> AfterDisplayBatch k \<Longrightarrow>
   results_tree (display_loop stop rs i app) = results_tree app @ drop i rs \<and>
   urls_verified (display_loop stop rs i app) = urls_verified app + length (drop i rs) \<and>
   running (display_loop stop rs i app)"
proof (induction stop rs i app rule: display_loop.induct)
  case (1 stop rs i app)
  show ?case
  proof (cases "i < length rs")
    case False
    then have "display_loop stop rs i app = app"
      by (subst display_loop.simps) simp
    then show ?thesis
      using False "1.prems"(1) by simp
  next
    case True
    let ?app1 = "if stop = AfterDisplayBatch (i div CHUNK_SIZE) then stop_validation app else app"
    let ?app' = "process_results_batch (slice rs i (i + CHUNK_SIZE)) app"
    have app1: "?app1 = app"
      using "1.prems"(2) by simp
    have unfold: "display_loop stop rs i app = display_loop stop rs (i + CHUNK_SIZE) ?app'"
      using True "1.prems"
      by (subst display_loop.simps) (simp add: Let_def)
    have run': "running ?app'"
      using "1.prems"(1) by (simp add: process_results_batch_def)
    have nn: "\<not> \<not> running ?app1"
      unfolding app1 using "1.prems"(1) by simp
    have run1: "running (process_results_batch (slice rs i (i + CHUNK_SIZE)) ?app1)"
      unfolding app1 using run' .
    have ih: "results_tree (display_loop stop rs (i + CHUNK_SIZE) ?app') =
          results_tree ?app' @ drop (i + CHUNK_SIZE) rs \<and>
        urls_verified (display_loop stop rs (i + CHUNK_SIZE) ?app') =
          urls_verified ?app' + length (drop (i + CHUNK_SIZE) rs) \<and>
        running (display_loop stop rs (i + CHUNK_SIZE) ?app')"
      using "1.IH"[OF True refl nn run1 "1.prems"(2)]
      unfolding app1 .
    have "slice rs i (i + CHUNK_SIZE) @ drop (i + CHUNK_SIZE) rs = drop i rs"
      using drop_take_split[of i "i + CHUNK_SIZE" "length rs + (i + CHUNK_SIZE)" rs]
      by (simp add: slice_def)
    then have "results_tree app @ slice rs i (i + CHUNK_SIZE) @ drop (i + CHUNK_SIZE) rs =
          results_tree app @ drop i rs"
      and "length (slice rs i (i + CHUNK_SIZE)) + length (drop (i + CHUNK_SIZE) rs) =
          length (drop i rs)"
      by (simp_all only: length_append[symmetric])
    then show ?thesis
      using ih unfolding unfold
      by (simp add: process_results_batch_def add.assoc)
  qed
qed

text \<open>
  C2, as amended. \<open>verify_urls\<close> does not read the cancellation flag: whenever the
  stop is requested, the run stores one result for every candidate. The flag is tested by
  the loop of \<open>verify_urls_async\<close> that puts the results on display, before each batch
  of \<open>CHUNK_SIZE\<close> results. For a run that starts with the flag set: a stop after
  \<open>k\<close> displayed batches leaves exactly the results of the first \<open>k\<close> batches in the
  result tree and in the counter of verified URLs; a stop during the verification leaves
  the tree and the counter unchanged; without a stop all results are displayed.
\<close>

theorem cancellation_at_display_batches:
  assumes "running app"
  shows "results (verify_urls_async stop env app) = verify_urls env (urls app) \<and>
     length (results (verify_urls_async stop env app)) = length (urls app) \<and>
     (stop = AfterDisplayBatch k \<longrightarrow>
        results_tree (verify_urls_async stop env app) =
          results_tree app @ take (k * CHUNK_SIZE) (verify_urls env (urls app)) \<and>
        urls_verified (verify_urls_async stop env app) =
          urls_verified app + min (k * CHUNK_SIZE) (length (urls app))) \<and>
     (stop = DuringVerification k \<longrightarrow>
        results_tree (verify_urls_async stop env app) = results_tree app \<and>
        urls_verified (verify_urls_async stop env app) = urls_verified app) \<and>
     (stop = Never \<longrightarrow>
        results_tree (verify_urls_async stop env app) =
          results_tree app @ verify_urls env (urls app))"
proof (intro conjI impI)
  show "results (verify_urls_async stop env app) = verify_urls env (urls app)"
    by (simp add: verify_urls_async_def Let_def)
  then show "length (results (verify_urls_async stop env app)) = length (urls app)"
    by (simp add: verify_urls_map)
next
  assume s: "stop = AfterDisplayBatch k"
  from display_loop_stop[OF assms, of 0 0 k "verify_urls env (urls app)"]
  show "results_tree (verify_urls_async stop env app) =
          results_tree app @ take (k * CHUNK_SIZE) (verify_urls env (urls app))"
    and "urls_verified (verify_urls_async stop env app) =
          urls_verified app + min (k * CHUNK_SIZE) (length (urls app))"
    using s by (simp_all add: verify_urls_async_def Let_def verify_urls_map min.commute)
next
  assume s: "stop = DuringVerification k"
  have "\<not> running (stop_validation app)"
    by (simp add: stop_validation_def)
  from display_loop_not_running[OF this]
  show "results_tree (verify_urls_async stop env app) = results_tree app"
    and "urls_verified (verify_urls_async stop env app) = urls_verified app"
    using s assms by (simp_all add: verify_urls_async_def Let_def stop_validation_def)
next
  assume s: "stop = Never"
  from display_loop_no_stop[OF assms, of Never "verify_urls env (urls app)" 0]
  show "results_tree (verify_urls_async stop env app) =
          results_tree app @ verify_urls env (urls app)"
    using s by (simp add: verify_urls_async_def Let_def)
qed


theorem cancellation_at_display_batches_witness:
  "urls_verified (verify_urls_async (AfterDisplayBatch 1) (\<lambda>j. answering 200) example_app) = 50 \<and>
   length (results_tree
     (verify_urls_async (AfterDisplayBatch 1) (\<lambda>j. answering 200) example_app)) = 50 \<and>
   length (results
     (verify_urls_async (AfterDisplayBatch 1) (\<lambda>j. answering 200) example_app)) = 51"
proof -
  have r: "running example_app"
    by simp
  have l: "length (verify_urls (\<lambda>j. answering 200) (replicate 51 example_candidate)) = 51"
    by (simp add: verify_urls_map)
  from cancellation_at_display_batches[OF r, of "AfterDisplayBatch 1" "\<lambda>j. answering 200" 1] l
  show ?thesis
    by (simp add: CHUNK_SIZE_def)
qed

text \<open>
  The claim as stated fails. With 51 candidates the verifier has two batches; when the
  stop is requested after its first batch, the run still produces the result of the
  candidate of the second batch, and puts none of the results on display.
\<close>

theorem cancellation_counterexample:
  "length (results
     (verify_urls_async (DuringVerification 1) (\<lambda>j. answering 200) example_app)) = 51 \<and>
   status (results
     (verify_urls_async (DuringVerification 1) (\<lambda>j. answering 200) example_app) ! 50) = Active \<and>
   results_tree
     (verify_urls_async (DuringVerification 1) (\<lambda>j. answering 200) example_app) = []"
proof -
  have "\<not> running (stop_validation example_app)"
    by (simp add: stop_validation_def)
  from display_loop_not_running[OF this]
  show ?thesis
    by (simp add: verify_urls_async_def Let_def verify_urls_map stop_validation_def
        verify_url_def request_def)
qed


section \<open>Properties of the normalizer\<close>

lemma startswith_prefix: "startswith s p \<longleftrightarrow> prefix p s"
  by (induction s p rule: startswith.induct) auto

lemma lower_http: "lower ''http'' = ''http''" "lower ''https'' = ''https''"
  by code_simp+

lemma literal_facts:
  "\<not> C0_CONTROL_OR_SPACE CHR ''h''" "ascii_alpha CHR ''h''"
  "CHR ''h'' \<in> set scheme_chars" "CHR ''t'' \<in> set scheme_chars"
  "CHR ''p'' \<in> set scheme_chars" "CHR ''s'' \<in> set scheme_chars"
  "''http'' \<in> set uses_params" "''https'' \<in> set uses_params"
  by code_simp+

lemma urlsplit_http:
  assumes "urlsplit ok (''http://'' @ rest) = Inr (sch, loc, p, q, f)"
  shows "sch = ''http''"
  using assms
  by (simp add: urlsplit_def Let_def before_def after_def literal_facts lower_http
      UNSAFE_URL_BYTES_TO_REMOVE_def split: if_splits prod.splits)

lemma urlsplit_https:
  assumes "urlsplit ok (''https://'' @ rest) = Inr (sch, loc, p, q, f)"
  shows "sch = ''https''"
  using assms
  by (simp add: urlsplit_def Let_def before_def after_def literal_facts lower_http
      UNSAFE_URL_BYTES_TO_REMOVE_def split: if_splits prod.splits)

lemma urlparse_scheme:
  assumes "urlparse ok url = Inr parsed" "prefix ''http://'' url \<or> prefix ''https://'' url"
  shows "scheme parsed = ''http'' \<or> scheme parsed = ''https''"
proof -
  from assms(1) obtain sch loc p q f where s: "urlsplit ok url = Inr (sch, loc, p, q, f)"
    and "scheme parsed = sch"
    by (auto simp: urlparse_def Let_def split: sum.splits prod.splits if_splits)
  with assms(2) urlsplit_http urlsplit_https show ?thesis
    by (auto simp: prefix_def)
qed

lemma normalize_url_shape:
  assumes "normalize_url ok s = Some r"
  shows "\<exists>host path. host \<noteq> [] \<and>
           (r = ''http://'' @ host @ path \<or> r = ''https://'' @ host @ path)"
proof -
  let ?u = "nfc (rstrip_chars (strip s) ''.,:;!?'')"
  let ?prefixed = "if startswith ?u ''http://'' \<or> startswith ?u ''https://'' then Some ?u
             else if startswith ?u ''//'' then Some (''https:'' @ ?u)
             else if \<not> contains ''://'' ?u \<and> CHR ''.'' \<in> set ?u then
               Some (''https://'' @ ?u)
             else None"
  from assms obtain url parsed where url: "?prefixed = Some url"
    and parsed: "urlparse ok url = Inr parsed" "netloc parsed \<noteq> []"
    and r: "r = scheme parsed @ ''://'' @ lower (netloc parsed) @ path parsed"
    by (auto simp: normalize_url_def normalize_try_def Let_def
        split: sum.splits option.splits if_splits)
  from url have "prefix ''http://'' url \<or> prefix ''https://'' url"
    by (auto simp: startswith_prefix prefix_def split: if_splits)
  from urlparse_scheme[OF parsed(1) this] r parsed(2) show ?thesis
    by (auto simp: lower_def)
qed

text \<open>
  C8. \<open>normalize_url\<close> never raises: when the body of its \<open>try\<close> block raises, the
  function returns \<open>None\<close>, and otherwise it returns what the body returns.
  \<open>normalize_url("not a url")\<close> and \<open>normalize_url("")\<close> are \<open>None\<close>. An input that, once
  stripped, has no \<open>http://\<close>, \<open>https://\<close> or \<open>//\<close> prefix and no dot is answered
  with \<open>None\<close>; and every string that is returned consists of the scheme \<open>http\<close> or
  \<open>https\<close>, a non-empty host, and a path.
\<close>

theorem normalize_url_never_raises:
  "(normalize_try ok s = Inl e \<longrightarrow> normalize_url ok s = None) \<and>
   (normalize_try ok s = Inr v \<longrightarrow> normalize_url ok s = v) \<and>
   normalize_url ok ''not a url'' = None \<and>
   normalize_url ok '''' = None \<and>
   (\<not> startswith (nfc (rstrip_chars (strip s) ''.,:;!?'')) ''http://'' \<and>
    \<not> startswith (nfc (rstrip_chars (strip s) ''.,:;!?'')) ''https://'' \<and>
    \<not> startswith (nfc (rstrip_chars (strip s) ''.,:;!?'')) ''//'' \<and>
    CHR ''.'' \<notin> set (nfc (rstrip_chars (strip s) ''.,:;!?''))
      \<longrightarrow> normalize_url ok s = None) \<and>
   (normalize_url ok s = Some r \<longrightarrow>
      (\<exists>host path. host \<noteq> [] \<and>
         (r = ''http://'' @ host @ path \<or> r = ''https://'' @ host @ path)))"
proof (intro conjI impI)
  show "normalize_url ok ''not a url'' = None"
    by code_simp
  show "normalize_url ok '''' = None"
    by code_simp
next
  assume "normalize_url ok s = Some r"
  then show "\<exists>host path. host \<noteq> [] \<and>
         (r = ''http://'' @ host @ path \<or> r = ''https://'' @ host @ path)"
    by (rule normalize_url_shape)
qed (simp_all add: normalize_url_def normalize_try_def Let_def)


theorem normalize_url_never_raises_witness:
  "normalize_try accept_all ''http://a]/'' = Inl ValueError \<and>
   normalize_url accept_all ''http://a]/'' = None \<and>
   normalize_try accept_all ''Example.COM/a?b'' = Inr (Some ''https://example.com/a'') \<and>
   normalize_url accept_all ''Example.COM/a?b'' = Some ''https://example.com/a'' \<and>
   normalize_url accept_all ''not, a url!'' = None"
proof -
  have t1: "normalize_try accept_all ''http://a]/'' = Inl ValueError"
    by code_simp
  have t2: "normalize_try accept_all ''Example.COM/a?b'' = Inr (Some ''https://example.com/a'')"
    by code_simp
  have t3: "\<not> startswith (nfc (rstrip_chars (strip ''not, a url!'') ''.,:;!?'')) ''http://'' \<and>
    \<not> startswith (nfc (rstrip_chars (strip ''not, a url!'') ''.,:;!?'')) ''https://'' \<and>
    \<not> startswith (nfc (rstrip_chars (strip ''not, a url!'') ''.,:;!?'')) ''//'' \<and>
    CHR ''.'' \<notin> set (nfc (rstrip_chars (strip ''not, a url!'') ''.,:;!?''))"
    by code_simp
  from normalize_url_never_raises[of accept_all "''http://a]/''" ValueError] t1
  have "normalize_url accept_all ''http://a]/'' = None"
    by blast
  moreover
  from normalize_url_never_raises[of accept_all "''Example.COM/a?b''" _
    "Some ''https://example.com/a''"] t2
  have "normalize_url accept_all ''Example.COM/a?b'' = Some ''https://example.com/a''"
    by blast
  moreover
  from normalize_url_never_raises[of accept_all "''not, a url!''"] t3
  have "normalize_url accept_all ''not, a url!'' = None"
    by blast
  ultimately show ?thesis
    using t1 t2 by simp
qed

text \<open>
  C1. The code does not have the property: the normalized form of
  \<open>https://a.com/x.?y=1\<close> is \<open>https://a.com/x.\<close>, whose final dot was hidden behind
  the query while the trailing punctuation was stripped; normalizing that result strips
  the dot and gives \<open>https://a.com/x\<close>.
\<close>

theorem normalize_url_not_idempotent:
  "normalize_url ok ''https://a.com/x.?y=1'' = Some ''https://a.com/x.'' \<and>
   normalize_url ok ''https://a.com/x.'' = Some ''https://a.com/x'' \<and>
   normalize_url ok ''https://a.com/x.'' \<noteq> Some ''https://a.com/x.''"
  by code_simp



subsection \<open>Where the normalizer is idempotent\<close>

text \<open>
  Apart from the characters that the first step strips at the end, a normalized form is a
  fixed point: if \<open>normalize_url\<close> returns a string that does not end in white space or
  in one of \<open>.,:;!?\<close>, it returns that string for it again. The library's check of
  a bracketed host is assumed to accept the lower-cased form of a host it accepts.
\<close>

lemma rev_dropWhile_rev_id: "s \<noteq> [] \<Longrightarrow> \<not> P (last s) \<Longrightarrow> rev (dropWhile P (rev s)) = s"
  by (cases s rule: rev_cases) simp_all

lemma strip_id: "s \<noteq> [] \<Longrightarrow> \<not> isspace (hd s) \<Longrightarrow> \<not> isspace (last s) \<Longrightarrow> strip s = s"
proof -
  assume a: "s \<noteq> []" "\<not> isspace (hd s)" "\<not> isspace (last s)"
  then have "dropWhile isspace s = s"
    by (cases s) simp_all
  with a show ?thesis
    by (simp add: strip_def rev_dropWhile_rev_id)
qed

lemma rstrip_chars_id: "s \<noteq> [] \<Longrightarrow> last s \<notin> set cs \<Longrightarrow> rstrip_chars s cs = s"
  by (simp add: rstrip_chars_def rev_dropWhile_rev_id)

lemma of_char_lt: "(of_char c :: nat) < 256"
  by (metis of_char_mod_256 mod_less_divisor zero_less_numeral)

lemma lower_char_eq_caseless: "caseless x \<Longrightarrow> lower_char c = x \<longleftrightarrow> c = x"
proof -
  assume x: "caseless x"
  let ?n = "of_char c :: nat"
  show ?thesis
  proof (cases "(65 \<le> ?n \<and> ?n \<le> 90) \<or> (192 \<le> ?n \<and> ?n \<le> 222 \<and> ?n \<noteq> 215)")
    case True
    then have l: "lower_char c = char_of (?n + 32)"
      by (simp add: lower_char_def Let_def)
    have "(of_char (char_of (?n + 32)) :: nat) = ?n + 32"
      using True by auto
    then have "char_of (?n + 32) \<noteq> x" "c \<noteq> x"
      using x True by (auto simp: caseless_def Let_def)
    with l show ?thesis by simp
  next
    case False
    then show ?thesis
      by (auto simp: lower_char_def Let_def)
  qed
qed

lemma lower_char_idem: "lower_char (lower_char c) = lower_char c"
proof -
  let ?n = "of_char c :: nat"
  show ?thesis
  proof (cases "(65 \<le> ?n \<and> ?n \<le> 90) \<or> (192 \<le> ?n \<and> ?n \<le> 222 \<and> ?n \<noteq> 215)")
    case True
    then have l: "lower_char c = char_of (?n + 32)"
      by (simp add: lower_char_def Let_def)
    have "(of_char (char_of (?n + 32)) :: nat) = ?n + 32"
      using True by auto
    then show ?thesis
      using True unfolding l by (auto simp: lower_char_def Let_def)
  next
    case False
    then show ?thesis
      by (auto simp: lower_char_def Let_def)
  qed
qed

lemma lower_idem: "lower (lower s) = lower s"
  by (simp add: lower_def lower_char_idem)

lemma caseless_literals:
  "caseless CHR ''/''" "caseless CHR ''?''" "caseless CHR ''#''" "caseless CHR ''[''"
  "caseless CHR '']''" "caseless CHR 0x09" "caseless CHR 0x0A" "caseless CHR 0x0D"
  by code_simp+


lemma before_absent: "d \<notin> set s \<Longrightarrow> before d s = s"
  by (induction s) (auto simp: before_def)

lemma after_absent: "d \<notin> set s \<Longrightarrow> after d s = []"
  by (induction s) (auto simp: after_def)

lemma split_if_present:
  "(if d \<in> set s then (before d s, after d s) else (s, [])) = (before d s, after d s)"
  by (simp add: before_absent after_absent)

lemma splitnetloc_2:
  "splitnetloc (a # b # xs) 2 =
     (takeWhile (\<lambda>c. c \<notin> set ''/?#'') xs, dropWhile (\<lambda>c. c \<notin> set ''/?#'') xs)"
proof -
  let ?P = "\<lambda>c::char. c \<notin> set ''/?#''"
  have d: "drop 2 (a # b # xs) = xs"
    by (simp add: numeral_2_eq_2)
  have "take (2 + length (takeWhile ?P xs)) (a # b # xs) = a # b # takeWhile ?P xs"
    by (simp add: numeral_2_eq_2 takeWhile_eq_take[symmetric])
  moreover have "drop (2 + length (takeWhile ?P xs)) (a # b # xs) = dropWhile ?P xs"
    by (simp add: numeral_2_eq_2 dropWhile_eq_drop[symmetric])
  ultimately show ?thesis
    unfolding splitnetloc_def slice_def Let_def d
    by (simp add: numeral_2_eq_2)
qed

lemma urlsplit_http_eq:
  "urlsplit ok (''http://'' @ rest) =
    (let rest' = filter (\<lambda>c. c \<notin> set UNSAFE_URL_BYTES_TO_REMOVE) rest;
         loc = takeWhile (\<lambda>c. c \<notin> set ''/?#'') rest';
         url3 = dropWhile (\<lambda>c. c \<notin> set ''/?#'') rest'
     in if netloc_rejected ok loc then Inl ValueError
        else Inr (''http'', loc, before CHR ''?'' (before CHR ''#'' url3),
                  after CHR ''?'' (before CHR ''#'' url3), after CHR ''#'' url3))"
proof -
  have u1: "filter (\<lambda>c. c \<notin> set UNSAFE_URL_BYTES_TO_REMOVE)
        (dropWhile C0_CONTROL_OR_SPACE (''http://'' @ rest)) =
      ''http://'' @ filter (\<lambda>c. c \<notin> set UNSAFE_URL_BYTES_TO_REMOVE) rest"
    by (simp add: literal_facts UNSAFE_URL_BYTES_TO_REMOVE_def)
  show ?thesis
    unfolding urlsplit_def u1
    by (simp add: Let_def before_def[of "CHR '':''"] after_def[of "CHR '':''"] literal_facts
        lower_http splitnetloc_2 split_if_present netloc_rejected_def)
qed

lemma urlsplit_https_eq:
  "urlsplit ok (''https://'' @ rest) =
    (let rest' = filter (\<lambda>c. c \<notin> set UNSAFE_URL_BYTES_TO_REMOVE) rest;
         loc = takeWhile (\<lambda>c. c \<notin> set ''/?#'') rest';
         url3 = dropWhile (\<lambda>c. c \<notin> set ''/?#'') rest'
     in if netloc_rejected ok loc then Inl ValueError
        else Inr (''https'', loc, before CHR ''?'' (before CHR ''#'' url3),
                  after CHR ''?'' (before CHR ''#'' url3), after CHR ''#'' url3))"
proof -
  have u1: "filter (\<lambda>c. c \<notin> set UNSAFE_URL_BYTES_TO_REMOVE)
        (dropWhile C0_CONTROL_OR_SPACE (''https://'' @ rest)) =
      ''https://'' @ filter (\<lambda>c. c \<notin> set UNSAFE_URL_BYTES_TO_REMOVE) rest"
    by (simp add: literal_facts UNSAFE_URL_BYTES_TO_REMOVE_def)
  show ?thesis
    unfolding urlsplit_def u1
    by (simp add: Let_def before_def[of "CHR '':''"] after_def[of "CHR '':''"] literal_facts
        lower_http splitnetloc_2 split_if_present netloc_rejected_def)
qed


lemma takeWhile_append_stop:
  assumes "\<forall>x\<in>set xs. P x" "ys = [] \<or> \<not> P (hd ys)"
  shows "takeWhile P (xs @ ys) = xs" and "dropWhile P (xs @ ys) = ys"
proof -
  have "takeWhile P ys = []" "dropWhile P ys = ys"
    using assms(2) by (cases ys; simp)+
  with assms(1) show "takeWhile P (xs @ ys) = xs" and "dropWhile P (xs @ ys) = ys"
    by (simp_all add: takeWhile_append2 dropWhile_append2)
qed

lemma splitparams_slash:
  assumes "CHR ''/'' \<in> set u"
  defines "a \<equiv> takeWhile (\<lambda>c. c \<noteq> CHR ''/'') (rev u)"
    and "b \<equiv> dropWhile (\<lambda>c. c \<noteq> CHR ''/'') (rev u)"
  shows "u = rev b @ rev a" and "b \<noteq> []" and "hd b = CHR ''/''"
    and "fst (splitparams u) =
      (if CHR '';'' \<in> set a then rev b @ before CHR '';'' (rev a) else u)"
proof -
  have ab: "a @ b = rev u"
    by (simp add: a_def b_def)
  then show u: "u = rev b @ rev a"
    by (metis rev_append rev_rev_ident)
  from assms(1) have "CHR ''/'' \<in> set (rev u)"
    by simp
  then show "b \<noteq> []"
    unfolding b_def by (simp add: dropWhile_eq_Nil_conv)
  then show "hd b = CHR ''/''"
    unfolding b_def using hd_dropWhile[of "\<lambda>c. c \<noteq> CHR ''/''" "rev u"] by simp
  have "length u = length a + length b"
    using ab by (metis length_append length_rev)
  then have "take (length u - length (rev a)) u = rev b"
    using u by (metis add_diff_cancel_left' append_eq_conv_conj length_rev)
  then show "fst (splitparams u) =
      (if CHR '';'' \<in> set a then rev b @ before CHR '';'' (rev a) else u)"
    using assms(1) by (simp add: splitparams_def Let_def a_def)
qed

lemma path_of_props:
  assumes "p = [] \<or> hd p = CHR ''/''"
  shows "path_of p = [] \<or> hd (path_of p) = CHR ''/''"
    and "set (path_of p) \<subseteq> set p"
    and "path_of (path_of p) = path_of p"
proof -
  let ?a = "takeWhile (\<lambda>c. c \<noteq> CHR ''/'') (rev p)"
  let ?b = "dropWhile (\<lambda>c. c \<noteq> CHR ''/'') (rev p)"
  let ?t = "before CHR '';'' (rev ?a)"
  have goal: "(path_of p = [] \<or> hd (path_of p) = CHR ''/'') \<and> set (path_of p) \<subseteq> set p \<and>
      path_of (path_of p) = path_of p"
  proof (cases "CHR '';'' \<in> set p")
    case False
    then show ?thesis
      using assms by (simp add: path_of_def)
  next
    case semi: True
    then have "p \<noteq> []" by auto
    with assms have slash: "CHR ''/'' \<in> set p"
      by (metis hd_in_set)
    note sp = splitparams_slash[OF slash]
    show ?thesis
    proof (cases "CHR '';'' \<in> set ?a")
      case False
      with sp(4) semi have "path_of p = p"
        by (simp add: path_of_def)
      then show ?thesis
        using assms by simp
    next
      case True
      with sp(4) semi have v: "path_of p = rev ?b @ ?t"
        by (simp add: path_of_def)
      have hd: "hd (path_of p) = CHR ''/''"
        using v sp(1,2) assms \<open>p \<noteq> []\<close> by (metis hd_append2 rev_is_Nil_conv)
      have sub: "set (path_of p) \<subseteq> set p"
      proof -
        have "set ?t \<subseteq> set (rev ?a)"
          unfolding before_def by (auto dest: set_takeWhileD)
        moreover have "set p = set (rev ?b) \<union> set (rev ?a)"
          using sp(1) by (metis set_append)
        ultimately show ?thesis
          unfolding v by auto
      qed
      have t_noslash: "\<forall>c\<in>set ?t. c \<noteq> CHR ''/''"
      proof
        fix c assume "c \<in> set ?t"
        then have "c \<in> set ?a"
          unfolding before_def by (metis set_takeWhileD set_rev)
        then show "c \<noteq> CHR ''/''"
          by (metis (mono_tags, lifting) set_takeWhileD)
      qed
      have t_nosemi: "CHR '';'' \<notin> set ?t"
        unfolding before_def by (metis (mono_tags, lifting) set_takeWhileD)
      have slash_v: "CHR ''/'' \<in> set (path_of p)"
        using hd v sp(2) by (metis Nil_is_append_conv hd_in_set rev_is_Nil_conv)
      have "rev (path_of p) = rev ?t @ ?b"
        unfolding v by simp
      moreover have "takeWhile (\<lambda>c. c \<noteq> CHR ''/'') (rev ?t @ ?b) = rev ?t"
        by (rule takeWhile_append_stop(1)) (use t_noslash sp(3) in simp_all)
      ultimately have "takeWhile (\<lambda>c. c \<noteq> CHR ''/'') (rev (path_of p)) = rev ?t"
        by simp
      then have "fst (splitparams (path_of p)) = path_of p"
        using splitparams_slash(4)[OF slash_v] t_nosemi by simp
      then have "path_of (path_of p) = path_of p"
        unfolding path_of_def[of "path_of p"] by simp
      with hd sub show ?thesis by simp
    qed
  qed
  from goal show "path_of p = [] \<or> hd (path_of p) = CHR ''/''"
    and "set (path_of p) \<subseteq> set p"
    and "path_of (path_of p) = path_of p"
    by simp_all
qed


lemma urlsplit_scheme_eq:
  assumes "sch = ''http'' \<or> sch = ''https''"
  shows "urlsplit ok (sch @ ''://'' @ rest) =
    (let rest' = filter (\<lambda>c. c \<notin> set UNSAFE_URL_BYTES_TO_REMOVE) rest;
         loc = takeWhile (\<lambda>c. c \<notin> set ''/?#'') rest';
         url3 = dropWhile (\<lambda>c. c \<notin> set ''/?#'') rest'
     in if netloc_rejected ok loc then Inl ValueError
        else Inr (sch, loc, before CHR ''?'' (before CHR ''#'' url3),
                  after CHR ''?'' (before CHR ''#'' url3), after CHR ''#'' url3))"
proof -
  have "''http'' @ ''://'' @ rest = ''http://'' @ rest"
    and "''https'' @ ''://'' @ rest = ''https://'' @ rest"
    by simp_all
  with assms show ?thesis
    using urlsplit_http_eq[of ok rest] urlsplit_https_eq[of ok rest] by metis
qed

lemma urlparse_scheme_eq:
  fixes rest :: string
  assumes "sch = ''http'' \<or> sch = ''https''"
  defines "rest' \<equiv> filter (\<lambda>c. c \<notin> set UNSAFE_URL_BYTES_TO_REMOVE) rest"
  defines "loc \<equiv> takeWhile (\<lambda>c. c \<notin> set ''/?#'') rest'"
    and "p5 \<equiv> before CHR ''?'' (before CHR ''#'' (dropWhile (\<lambda>c. c \<notin> set ''/?#'') rest'))"
  shows "netloc_rejected ok loc \<Longrightarrow> urlparse ok (sch @ ''://'' @ rest) = Inl ValueError"
    and "\<not> netloc_rejected ok loc \<Longrightarrow>
      \<exists>parsed. urlparse ok (sch @ ''://'' @ rest) = Inr parsed \<and> scheme parsed = sch \<and>
        netloc parsed = loc \<and> path parsed = path_of p5"
proof -
  have u: "sch \<in> set uses_params"
    using assms(1) literal_facts by auto
  show "netloc_rejected ok loc \<Longrightarrow> urlparse ok (sch @ ''://'' @ rest) = Inl ValueError"
    unfolding urlparse_def urlsplit_scheme_eq[OF assms(1)] loc_def rest'_def
    by (simp add: Let_def)
  show "\<not> netloc_rejected ok loc \<Longrightarrow>
      \<exists>parsed. urlparse ok (sch @ ''://'' @ rest) = Inr parsed \<and> scheme parsed = sch \<and>
        netloc parsed = loc \<and> path parsed = path_of p5"
    unfolding urlparse_def urlsplit_scheme_eq[OF assms(1)] loc_def rest'_def p5_def
    using u by (simp add: Let_def path_of_def split: prod.splits)
qed

lemma normalize_url_prefixed:
  assumes "normalize_url ok s = Some r"
  obtains sch rest where "sch = ''http'' \<or> sch = ''https''"
    and "case urlparse ok (sch @ ''://'' @ rest) of Inl e \<Rightarrow> False
         | Inr parsed \<Rightarrow> netloc parsed \<noteq> [] \<and>
             r = scheme parsed @ ''://'' @ lower (netloc parsed) @ path parsed"
proof -
  let ?u = "nfc (rstrip_chars (strip s) ''.,:;!?'')"
  let ?prefixed = "if startswith ?u ''http://'' \<or> startswith ?u ''https://'' then Some ?u
             else if startswith ?u ''//'' then Some (''https:'' @ ?u)
             else if \<not> contains ''://'' ?u \<and> CHR ''.'' \<in> set ?u then
               Some (''https://'' @ ?u)
             else None"
  from assms obtain url parsed where url: "?prefixed = Some url"
    and parsed: "urlparse ok url = Inr parsed" "netloc parsed \<noteq> []"
    and r: "r = scheme parsed @ ''://'' @ lower (netloc parsed) @ path parsed"
    by (auto simp: normalize_url_def normalize_try_def Let_def
        split: sum.splits option.splits if_splits)
  from url have "prefix ''http://'' url \<or> prefix ''https://'' url"
    by (auto simp: startswith_prefix prefix_def split: if_splits)
  then consider zs where "url = ''http'' @ ''://'' @ zs" | zs where "url = ''https'' @ ''://'' @ zs"
    by (auto simp: prefix_def)
  then show ?thesis
  proof cases
    case 1
    with parsed r show ?thesis
      by (intro that[of "''http''" zs]) simp_all
  next
    case 2
    with parsed r show ?thesis
      by (intro that[of "''https''" zs]) simp_all
  qed
qed


lemma lower_char_neq_caseless: "caseless d \<Longrightarrow> (\<lambda>c. lower_char c \<noteq> d) = (\<lambda>c. c \<noteq> d)"
  by (rule ext) (simp add: lower_char_eq_caseless)

lemma mem_lower:
  assumes "caseless x"
  shows "x \<in> set (lower s) \<longleftrightarrow> x \<in> set s"
proof -
  have "(x = lower_char c) = (c = x)" for c
    using lower_char_eq_caseless[OF assms, of c] by auto
  then show ?thesis
    by (auto simp: lower_def image_iff)
qed

lemma before_lower: "caseless d \<Longrightarrow> before d (lower s) = lower (before d s)"
  by (simp add: lower_def before_def takeWhile_map comp_def lower_char_neq_caseless)

lemma after_lower: "caseless d \<Longrightarrow> after d (lower s) = lower (after d s)"
  by (simp add: lower_def after_def dropWhile_map comp_def lower_char_neq_caseless drop_map)

lemma netloc_rejected_lower:
  assumes "\<And>h. ok h \<Longrightarrow> ok (lower h)" "\<not> netloc_rejected ok loc"
  shows "\<not> netloc_rejected ok (lower loc)"
  using assms
  by (auto simp: netloc_rejected_def mem_lower before_lower after_lower caseless_literals)

lemma path_start:
  fixes rest' :: string
  defines "p5 \<equiv> before CHR ''?'' (before CHR ''#'' (dropWhile (\<lambda>c. c \<notin> set ''/?#'') rest'))"
  shows "p5 = [] \<or> hd p5 = CHR ''/''" and "set p5 \<subseteq> set rest'"
    and "CHR ''?'' \<notin> set p5" and "CHR ''#'' \<notin> set p5"
proof -
  let ?url3 = "dropWhile (\<lambda>c. c \<notin> set ''/?#'') rest'"
  show "p5 = [] \<or> hd p5 = CHR ''/''"
  proof (cases ?url3)
    case Nil
    show ?thesis
      unfolding p5_def Nil by (simp add: before_def)
  next
    case (Cons x xs)
    then have "\<not> (x \<notin> set ''/?#'')"
      using hd_dropWhile[of "\<lambda>c. c \<notin> set ''/?#''" rest'] by (metis list.distinct(1) list.sel(1))
    with Cons show ?thesis
      by (auto simp: p5_def before_def)
  qed
  have sub: "set (before d xs) \<subseteq> set xs" for d :: char and xs
    unfolding before_def by (auto dest: set_takeWhileD)
  have "set p5 \<subseteq> set ?url3"
    unfolding p5_def using sub by blast
  then show "set p5 \<subseteq> set rest'"
    by (auto dest: set_dropWhileD)
  have no: "d \<notin> set (before d xs)" for d :: char and xs
    unfolding before_def by (auto dest: set_takeWhileD)
  show "CHR ''?'' \<notin> set p5"
    unfolding p5_def by (rule no)
  show "CHR ''#'' \<notin> set p5"
    unfolding p5_def using no[of "CHR ''#''"] sub by blast
qed

lemma normalize_url_idempotent_if_clean:
  assumes n: "normalize_url ok s = Some r"
    and clean: "\<not> isspace (last r)" "last r \<notin> set ''.,:;!?''"
    and mono: "\<And>h. ok h \<Longrightarrow> ok (lower h)"
  shows "normalize_url ok r = Some r"
proof -
  from normalize_url_prefixed[OF n] obtain sch rest where sch: "sch = ''http'' \<or> sch = ''https''"
    and c: "case urlparse ok (sch @ ''://'' @ rest) of Inl e \<Rightarrow> False
         | Inr parsed \<Rightarrow> netloc parsed \<noteq> [] \<and>
             r = scheme parsed @ ''://'' @ lower (netloc parsed) @ path parsed"
    by blast
  define rest' where "rest' = filter (\<lambda>c. c \<notin> set UNSAFE_URL_BYTES_TO_REMOVE) rest"
  define loc where "loc = takeWhile (\<lambda>c. c \<notin> set ''/?#'') rest'"
  define p5 where
    "p5 = before CHR ''?'' (before CHR ''#'' (dropWhile (\<lambda>c. c \<notin> set ''/?#'') rest'))"
  define P where "P = path_of p5"
  note up = urlparse_scheme_eq[OF sch, of ok rest, folded rest'_def, folded loc_def p5_def]
  have acc: "\<not> netloc_rejected ok loc"
    using c up(1) by (cases "netloc_rejected ok loc") auto
  from up(2)[OF acc] c have loc: "loc \<noteq> []" and r: "r = sch @ ''://'' @ lower loc @ P"
    by (auto simp: P_def)
  have safe: "\<forall>c\<in>set rest'. c \<notin> set UNSAFE_URL_BYTES_TO_REMOVE"
    by (simp add: rest'_def)
  have loc_sub: "set loc \<subseteq> set rest'" and loc_nd: "\<forall>c\<in>set loc. c \<notin> set ''/?#''"
    unfolding loc_def by (auto dest: set_takeWhileD)
  note ps = path_start[of rest', folded p5_def]
  note pp = path_of_props[OF ps(1), folded P_def]
  have P_sub: "set P \<subseteq> set rest'" and P_q: "CHR ''?'' \<notin> set P" and P_h: "CHR ''#'' \<notin> set P"
    using pp(2) ps(2,3,4) by auto
  have low_safe: "\<forall>c\<in>set (lower loc). c \<notin> set UNSAFE_URL_BYTES_TO_REMOVE"
  proof -
    have "CHR 0x09 \<notin> set loc" "CHR 0x0D \<notin> set loc" "CHR 0x0A \<notin> set loc"
      using safe loc_sub by (auto simp: UNSAFE_URL_BYTES_TO_REMOVE_def)
    then have "CHR 0x09 \<notin> set (lower loc)" "CHR 0x0D \<notin> set (lower loc)"
      "CHR 0x0A \<notin> set (lower loc)"
      by (simp_all add: mem_lower caseless_literals)
    then show ?thesis
      by (auto simp: UNSAFE_URL_BYTES_TO_REMOVE_def)
  qed
  have low_nd: "\<forall>c\<in>set (lower loc). c \<notin> set ''/?#''"
  proof -
    have "CHR ''/'' \<notin> set loc" "CHR ''?'' \<notin> set loc" "CHR ''#'' \<notin> set loc"
      using loc_nd by auto
    then have "CHR ''/'' \<notin> set (lower loc)" "CHR ''?'' \<notin> set (lower loc)"
      "CHR ''#'' \<notin> set (lower loc)"
      by (simp_all add: mem_lower caseless_literals)
    then show ?thesis
      by auto
  qed
  have f: "filter (\<lambda>c. c \<notin> set UNSAFE_URL_BYTES_TO_REMOVE) (lower loc @ P) = lower loc @ P"
    using low_safe safe P_sub by (auto simp: filter_id_conv)
  have stop: "P = [] \<or> \<not> (hd P \<notin> set ''/?#'')"
    using pp(1) by auto
  have tw: "takeWhile (\<lambda>c. c \<notin> set ''/?#'') (lower loc @ P) = lower loc"
    and dw: "dropWhile (\<lambda>c. c \<notin> set ''/?#'') (lower loc @ P) = P"
    using takeWhile_append_stop[OF low_nd stop] by simp_all
  have b: "before CHR ''?'' (before CHR ''#'' P) = P"
    using P_q P_h by (simp add: before_absent)
  note up2 = urlparse_scheme_eq(2)[OF sch, of ok "lower loc @ P", unfolded f tw dw b]
  from up2[OF netloc_rejected_lower[OF mono acc]] obtain parsed where
    parsed: "urlparse ok (sch @ ''://'' @ lower loc @ P) = Inr parsed"
      "scheme parsed = sch" "netloc parsed = lower loc" "path parsed = P"
    using pp(3) by auto
  have "r \<noteq> []" and hd: "hd r = CHR ''h''"
    using r sch by auto
  have nh: "\<not> isspace CHR ''h''"
    by code_simp
  have pre: "nfc (rstrip_chars (strip r) ''.,:;!?'') = r"
    using \<open>r \<noteq> []\<close> hd nh clean by (simp add: nfc_def strip_id rstrip_chars_id)
  have sw: "startswith r ''http://'' \<or> startswith r ''https://''"
    using r sch by auto
  have "lower loc \<noteq> []"
    using loc by (simp add: lower_def)
  then show ?thesis
    unfolding normalize_url_def normalize_try_def pre Let_def
    using sw parsed r by (simp add: lower_idem)
qed


section \<open>Properties of the extractor\<close>

lemma startswith_take: "startswith s p \<Longrightarrow> length p \<le> k \<Longrightarrow> startswith (take k s) p"
  by (auto simp: startswith_prefix prefix_def)

lemma findall_sound: "x \<in> set (findall m s) \<Longrightarrow> \<exists>t. m t = Some x"
  by (induction m s rule: findall.induct) (auto split: option.splits)

lemma match_scheme_Some:
  "match_scheme s = Some k \<Longrightarrow>
     (k = 7 \<and> startswith s ''http://'') \<or> (k = 8 \<and> startswith s ''https://'')"
  by (auto simp: match_scheme_def split: if_splits)

lemma match_URL_REGEX_ok: "match_URL_REGEX t = Some m \<Longrightarrow> raw_match_ok m"
proof -
  assume a: "match_URL_REGEX t = Some m"
  then obtain k where k: "match_scheme t = Some k"
    and m: "m = take k t @ takeWhile url_char (drop k t)"
    and len: "8 \<le> length (takeWhile url_char (drop k t))"
    by (auto simp: match_URL_REGEX_def Let_def split: option.splits if_splits)
  from match_scheme_Some[OF k] show ?thesis
  proof
    assume h: "k = 7 \<and> startswith t ''http://''"
    then have "take 7 t = ''http://''"
      by (auto simp: startswith_prefix prefix_def)
    with h m len show ?thesis
      by (simp add: raw_match_ok_def)
  next
    assume h: "k = 8 \<and> startswith t ''https://''"
    then have "take 8 t = ''https://''"
      by (auto simp: startswith_prefix prefix_def)
    with h m len show ?thesis
      by (simp add: raw_match_ok_def)
  qed
qed

lemma backtrack_Some: "backtrack rest n0 = Some n \<Longrightarrow> 9 \<le> n \<and> n \<le> length rest"
proof (induction rest n0 rule: backtrack.induct)
  case (1 rest n0)
  then show ?case
    by (subst (asm) (2) backtrack.simps) (auto split: if_splits)
qed

lemma match_alt_regex_ok: "match_alt_regex t = Some m \<Longrightarrow> raw_match_ok m"
proof -
  assume a: "match_alt_regex t = Some m"
  then obtain k n where k: "match_scheme t = Some k"
    and b: "backtrack (drop k t) (length (takeWhile alt_char (drop k t))) = Some n"
    and m: "m = take (k + n) t"
    by (auto simp: match_alt_regex_def split: option.splits)
  from backtrack_Some[OF b] have n: "9 \<le> n" "k + n \<le> length t"
    by auto
  from match_scheme_Some[OF k] show ?thesis
  proof
    assume h: "k = 7 \<and> startswith t ''http://''"
    then have "startswith (take (k + n) t) ''http://''"
      by (intro startswith_take) simp_all
    with h m n show ?thesis
      by (simp add: raw_match_ok_def)
  next
    assume h: "k = 8 \<and> startswith t ''https://''"
    then have "startswith (take (k + n) t) ''https://''"
      by (intro startswith_take) simp_all
    with h m n show ?thesis
      by (simp add: raw_match_ok_def)
  qed
qed

lemma extract_from_text_sound:
  "c \<in> set (extract_from_text ok text src) \<Longrightarrow>
     original_url c = normalized_url c \<and> source_file c = src \<and>
     (\<exists>m \<in> set (findall match_URL_REGEX text). normalize_url ok m = Some (normalized_url c))"
  by (auto simp: extract_from_text_def py_set_def Let_def split: option.splits if_splits)

lemma extract_text_urls_sound:
  "c \<in> set (extract_text_urls ok content src) \<Longrightarrow>
     original_url c \<in> set (findall match_URL_REGEX content) \<union> set (findall match_alt_regex content)
     \<and> normalize_url ok (original_url c) = Some (normalized_url c) \<and> source_file c = src"
  by (auto simp: extract_text_urls_def normalize_urls_def py_set_def Let_def
      split: option.splits if_splits)

text \<open>
  C9. Every candidate that \<open>extract_from_text\<close> returns has equal fields
  \<open>original_url\<close> and \<open>normalized_url\<close>, both the normalized form of a raw match of
  \<open>URL_REGEX\<close> in the text, and carries the source name that the function was given,
  which is the fixed label for manual input whenever the caller leaves the default.
\<close>

theorem extract_from_text_candidates:
  "\<forall>c \<in> set (extract_from_text ok text src).
     original_url c = normalized_url c \<and> source_file c = src \<and>
     (\<exists>m \<in> set (findall match_URL_REGEX text). normalize_url ok m = Some (normalized_url c))"
proof (intro ballI)
  fix c assume "c \<in> set (extract_from_text ok text src)"
  from extract_from_text_sound[OF this]
  show "original_url c = normalized_url c \<and> source_file c = src \<and>
     (\<exists>m \<in> set (findall match_URL_REGEX text). normalize_url ok m = Some (normalized_url c))" .
qed


theorem extract_from_text_candidates_witness:
  "extract_from_text accept_all ''Visit http://Example.com/Page?x=1 now.'' manual_input =
     [\<lparr>original_url = ''http://example.com/Page'', normalized_url = ''http://example.com/Page'',
       source_file = manual_input\<rparr>] \<and>
   source_file (hd (extract_from_text accept_all ''Visit http://Example.com/Page?x=1 now.''
      manual_input)) = manual_input \<and>
   original_url (hd (extract_from_text accept_all ''Visit http://Example.com/Page?x=1 now.''
      manual_input)) =
   normalized_url (hd (extract_from_text accept_all ''Visit http://Example.com/Page?x=1 now.''
      manual_input))"
proof -
  have "extract_from_text accept_all ''Visit http://Example.com/Page?x=1 now.'' src =
     [\<lparr>original_url = ''http://example.com/Page'', normalized_url = ''http://example.com/Page'',
       source_file = src\<rparr>]" for src :: "nat list"
    by code_simp
  then have e: "extract_from_text accept_all ''Visit http://Example.com/Page?x=1 now.''
      manual_input =
     [\<lparr>original_url = ''http://example.com/Page'', normalized_url = ''http://example.com/Page'',
       source_file = manual_input\<rparr>]" .
  then have "hd (extract_from_text accept_all ''Visit http://Example.com/Page?x=1 now.''
      manual_input) \<in> set (extract_from_text accept_all
        ''Visit http://Example.com/Page?x=1 now.'' manual_input)"
    by simp
  with extract_from_text_candidates[of accept_all
      "''Visit http://Example.com/Page?x=1 now.''" manual_input] e
  show ?thesis
    by blast
qed

text \<open>
  C10, as amended. Every candidate of \<open>extract_from_text\<close> is the normalized form of a
  raw match that has at least eight characters after its \<open>http://\<close> or \<open>https://\<close>
  prefix, and every candidate of \<open>_extract_text_urls\<close> has such a raw match as its
  original URL. The short URL \<open>http://a.io\<close> is a raw match of neither pattern in any
  text; alone it yields no candidate from either function, and at a position where it is
  followed by a character that ends the run of the pattern, neither pattern matches. (It
  can still be the normalized form of a longer raw match.)
\<close>

theorem short_urls_are_not_extracted:
  "(\<forall>c \<in> set (extract_from_text ok text src).
      \<exists>m \<in> set (findall match_URL_REGEX text).
        raw_match_ok m \<and> normalize_url ok m = Some (normalized_url c)) \<and>
   (\<forall>c \<in> set (extract_text_urls ok text src).
      raw_match_ok (original_url c) \<and>
      normalize_url ok (original_url c) = Some (normalized_url c)) \<and>
   extract_from_text ok ''http://a.io'' src = [] \<and>
   extract_text_urls ok ''http://a.io'' src = [] \<and>
   ''http://a.io'' \<notin> set (findall match_URL_REGEX text) \<and>
   ''http://a.io'' \<notin> set (findall match_alt_regex text) \<and>
   (\<not> url_char d \<longrightarrow> match_URL_REGEX (''http://a.io'' @ d # rest) = None) \<and>
   (\<not> alt_char d \<longrightarrow> match_alt_regex (''http://a.io'' @ d # rest) = None)"
proof (intro conjI ballI impI)
  have cs: "url_char CHR ''a''" "url_char CHR ''.''" "url_char CHR ''i''" "url_char CHR ''o''"
    "alt_char CHR ''a''" "alt_char CHR ''.''" "alt_char CHR ''i''" "alt_char CHR ''o''"
    by code_simp+
  {
    assume "\<not> url_char d"
    then show "match_URL_REGEX (''http://a.io'' @ d # rest) = None"
      by (simp add: match_URL_REGEX_def match_scheme_def cs Let_def)
  }
  {
    assume "\<not> alt_char d"
    then have "length (takeWhile alt_char (drop 7 (''http://a.io'' @ d # rest))) = 4"
      by (simp add: cs)
    moreover have "backtrack xs 4 = None" for xs
      by (subst backtrack.simps) simp
    ultimately show "match_alt_regex (''http://a.io'' @ d # rest) = None"
      by (simp add: match_alt_regex_def match_scheme_def)
  }
next
  fix c assume "c \<in> set (extract_from_text ok text src)"
  from extract_from_text_sound[OF this] obtain m where
    m: "m \<in> set (findall match_URL_REGEX text)" "normalize_url ok m = Some (normalized_url c)"
    by blast
  from findall_sound[OF m(1)] match_URL_REGEX_ok have "raw_match_ok m"
    by blast
  with m show "\<exists>m \<in> set (findall match_URL_REGEX text).
        raw_match_ok m \<and> normalize_url ok m = Some (normalized_url c)"
    by blast
next
  fix c assume "c \<in> set (extract_text_urls ok text src)"
  from extract_text_urls_sound[OF this]
  show "raw_match_ok (original_url c)"
    and "normalize_url ok (original_url c) = Some (normalized_url c)"
    using findall_sound match_URL_REGEX_ok match_alt_regex_ok by blast+
next
  show "extract_from_text ok ''http://a.io'' src = []"
    by code_simp
  show "extract_text_urls ok ''http://a.io'' src = []"
    by code_simp
  have short: "\<not> raw_match_ok ''http://a.io''"
    by code_simp
  show "''http://a.io'' \<notin> set (findall match_URL_REGEX text)"
    using findall_sound match_URL_REGEX_ok short by blast
  show "''http://a.io'' \<notin> set (findall match_alt_regex text)"
    using findall_sound match_alt_regex_ok short by blast
qed

theorem short_urls_are_not_extracted_witness:
  "extract_text_urls accept_all ''see https://example.org/docs now'' manual_input =
     [\<lparr>original_url = ''https://example.org/docs'',
       normalized_url = ''https://example.org/docs'', source_file = manual_input\<rparr>] \<and>
   raw_match_ok ''https://example.org/docs'' \<and>
   match_URL_REGEX ''http://a.io now'' = None \<and>
   match_alt_regex ''http://a.io<br>'' = None"
proof -
  let ?t = "''see https://example.org/docs now''"
  let ?c = "\<lparr>original_url = ''https://example.org/docs'',
       normalized_url = ''https://example.org/docs'', source_file = manual_input\<rparr>"
  have "extract_text_urls accept_all ?t src =
     [\<lparr>original_url = ''https://example.org/docs'',
       normalized_url = ''https://example.org/docs'', source_file = src\<rparr>]"
    for src :: "nat list"
    by code_simp
  then have e: "extract_text_urls accept_all ?t manual_input = [?c]" .
  have d: "\<not> url_char CHR '' ''" "\<not> alt_char CHR ''<''"
    by code_simp+
  note t = short_urls_are_not_extracted[of accept_all ?t manual_input]
  have "?c \<in> set (extract_text_urls accept_all ?t manual_input)"
    using e by simp
  with t have "raw_match_ok (original_url ?c)"
    by blast
  moreover have "match_URL_REGEX (''http://a.io'' @ CHR '' '' # ''now'') = None"
    using short_urls_are_not_extracted[of accept_all ?t manual_input "CHR '' ''" "''now''"] d
    by blast
  moreover have "match_alt_regex (''http://a.io'' @ CHR ''<'' # ''br>'') = None"
    using short_urls_are_not_extracted[of accept_all ?t manual_input "CHR ''<''" "''br>''"] d
    by blast
  ultimately show ?thesis
    using e by simp
qed

text \<open>
  The claim as stated fails for the short URL: it is not a raw match, but it is emitted as
  a candidate when a longer raw match normalizes to it. In the text below the raw match
  is \<open>http://a.io?abcdefg\<close>, whose query is discarded by the normalizer, and both
  functions return a candidate whose normalized URL is \<open>http://a.io\<close>.
\<close>

theorem short_url_discovered_counterexample:
  "extract_from_text accept_all ''see http://a.io?abcdefg now'' manual_input =
     [\<lparr>original_url = ''http://a.io'', normalized_url = ''http://a.io'',
       source_file = manual_input\<rparr>] \<and>
   extract_text_urls accept_all ''see http://a.io?abcdefg now'' manual_input =
     [\<lparr>original_url = ''http://a.io?abcdefg'', normalized_url = ''http://a.io'',
       source_file = manual_input\<rparr>] \<and>
   \<not> raw_match_ok ''http://a.io''"
proof -
  have "extract_from_text accept_all ''see http://a.io?abcdefg now'' src =
     [\<lparr>original_url = ''http://a.io'', normalized_url = ''http://a.io'',
       source_file = src\<rparr>]" for src :: "nat list"
    by code_simp
  moreover have "extract_text_urls accept_all ''see http://a.io?abcdefg now'' src =
     [\<lparr>original_url = ''http://a.io?abcdefg'', normalized_url = ''http://a.io'',
       source_file = src\<rparr>]" for src :: "nat list"
    by code_simp
  moreover have "\<not> raw_match_ok ''http://a.io''"
    by code_simp
  ultimately show ?thesis
    by simp
qed

end
